theory Spec2Isabelle
  imports Complex_Main "HOL-Library.AList"
begin

section \<open>JavaScript values\<close>

text \<open>
  The worker pool of \<^verbatim>\<open>http-proxy-listener.js\<close> ingests whatever the realtime database
  delivers, so raw worker data is modelled as a JavaScript value. Finite numbers are
  rationals (every finite double is one, and the only arithmetic the pool performs on them
  is the sign of a difference, which for finite doubles is the sign of the exact
  difference); the non-finite numbers are kept apart so that \<^verbatim>\<open>Number.isFinite\<close> is a real
  test. An object is its identity (the address of the object, which is what \<^verbatim>\<open>===\<close> and
  \<^verbatim>\<open>!==\<close> compare) together with the list of its own properties in enumeration order;
  arrays are objects whose property names are indices. Two objects built separately have
  different addresses even when their properties agree, and nothing here mutates an
  object, so equality of two values of this type is \<^verbatim>\<open>===\<close> on everything but
  \<^verbatim>\<open>NaN\<close>.
\<close>

datatype jsval =
    JUndefined
  | JNull
  | JBool bool
  | JNum rat
  | JNaN
  | JInfinity bool
  | JStr string
  | JObj nat "(string \<times> jsval) list"

datatype jstype = TUndefined | TObject | TBoolean | TNumber | TString

text \<open>The \<^verbatim>\<open>typeof\<close> operator.\<close>

fun typeof :: "jsval \<Rightarrow> jstype" where
  "typeof JUndefined = TUndefined"
| "typeof JNull = TObject"
| "typeof (JBool b) = TBoolean"
| "typeof (JNum n) = TNumber"
| "typeof JNaN = TNumber"
| "typeof (JInfinity s) = TNumber"
| "typeof (JStr s) = TString"
| "typeof (JObj a fs) = TObject"

text \<open>Truthiness, as tested by \<^verbatim>\<open>!v\<close>, \<^verbatim>\<open>v && ...\<close> and \<^verbatim>\<open>v || d\<close>.\<close>

fun truthy :: "jsval \<Rightarrow> bool" where
  "truthy JUndefined = False"
| "truthy JNull = False"
| "truthy (JBool b) = b"
| "truthy (JNum n) = (n \<noteq> 0)"
| "truthy JNaN = False"
| "truthy (JInfinity s) = True"
| "truthy (JStr s) = (s \<noteq> [])"
| "truthy (JObj a fs) = True"

text \<open>\<^verbatim>\<open>a || d\<close>\<close>

definition js_or :: "jsval \<Rightarrow> jsval \<Rightarrow> jsval" where
  "js_or a d = (if truthy a then a else d)"

text \<open>
  Property read \<^verbatim>\<open>v.p\<close> for the property names the pool reads (\<^verbatim>\<open>url\<close>, \<^verbatim>\<open>upload_at\<close>,
  \<^verbatim>\<open>version\<close>, \<^verbatim>\<open>runner_by\<close>, \<^verbatim>\<open>.sv\<close>): an object yields its own property or
  \<^verbatim>\<open>undefined\<close>, a primitive has none of them. The source only reads properties of
  values it has tested to be truthy, so the read never throws.
\<close>

fun js_get :: "jsval \<Rightarrow> string \<Rightarrow> jsval" where
  "js_get (JObj a fs) p = (case map_of fs p of Some x \<Rightarrow> x | None \<Rightarrow> JUndefined)"
| "js_get v p = JUndefined"

section \<open>normalizeUploadAt\<close>

text \<open>
  \<^verbatim>\<open>Date.parse\<close> and \<^verbatim>\<open>Date.now\<close> belong to the runtime: the parser is a parameter
  \<open>dparse\<close> (\<open>None\<close> stands for the \<^verbatim>\<open>NaN\<close> of an unparseable text), and the clock
  reading is the parameter \<open>now\<close>. The equations follow the source's tests in order:
  a finite number, a string, the placeholder object, everything else.
\<close>

fun normalizeUploadAt :: "(string \<Rightarrow> rat option) \<Rightarrow> rat \<Rightarrow> jsval \<Rightarrow> rat" where
  "normalizeUploadAt dparse now (JNum n) = n"
| "normalizeUploadAt dparse now (JStr s) = (case dparse s of Some t \<Rightarrow> t | None \<Rightarrow> now)"
| "normalizeUploadAt dparse now v =
     (if truthy v \<and> typeof v = TObject \<and> js_get v ''.sv'' = JStr ''timestamp'' then now
      else now)"

section \<open>The worker pool\<close>

text \<open>
  A worker record as \<^verbatim>\<open>updateWorker\<close> builds it. The url, version and runner label are
  whatever the snapshot carried (the defaults are strings); \<^verbatim>\<open>upload_at\<close> is always
  the result of \<^verbatim>\<open>normalizeUploadAt\<close>.
\<close>

record worker =
  key :: string
  url :: jsval
  upload_at :: rat
  version :: jsval
  runner_by :: jsval

record comparable =
  cmp_url :: jsval
  cmp_upload_at :: rat
  cmp_version :: jsval
  cmp_runner_by :: jsval

text \<open>
  The state of a \<^verbatim>\<open>WorkerPool\<close>. \<^verbatim>\<open>workers\<close> is a JavaScript \<^verbatim>\<open>Map\<close>, which iterates
  in insertion order: it is the list of its entries in that order. \<^verbatim>\<open>Map.set\<close> is
  \<^const>\<open>AList.update\<close> (an existing key keeps its place, a new key goes to the end),
  \<^verbatim>\<open>Map.delete\<close> is \<^const>\<open>AList.delete\<close>, \<^verbatim>\<open>Map.get\<close> is \<^const>\<open>map_of\<close>.
\<close>

record pool =
  workers :: "(string \<times> worker) list"
  sortedKeys :: "string list"
  currentIndex :: nat
  firstSyncLogged :: bool

text \<open>The constructor.\<close>

definition new_pool :: pool where
  "new_pool = \<lparr>workers = [], sortedKeys = [], currentIndex = 0, firstSyncLogged = False\<rparr>"

definition map_has :: "(string \<times> 'v) list \<Rightarrow> string \<Rightarrow> bool" where
  "map_has m k = (k \<in> set (map fst m))"

text \<open>
  \<^verbatim>\<open>a !== b\<close> on values: \<^verbatim>\<open>NaN\<close> differs from everything, itself included, and two
  objects differ unless they are the same object (the same address). A property read
  returns the stored reference, so the url kept in a record is the very object the
  snapshot held.
\<close>

definition strict_neq :: "jsval \<Rightarrow> jsval \<Rightarrow> bool" where
  "strict_neq a b = (a = JNaN \<or> b = JNaN \<or> a \<noteq> b)"

definition toComparable :: "(string \<Rightarrow> rat option) \<Rightarrow> rat \<Rightarrow> jsval \<Rightarrow> comparable option" where
  "toComparable dparse now data =
     (if \<not> truthy data then None
      else Some \<lparr>cmp_url = js_or (js_get data ''url'') (JStr []),
                 cmp_upload_at = normalizeUploadAt dparse now (js_get data ''upload_at''),
                 cmp_version = js_or (js_get data ''version'') (JStr ''unknown''),
                 cmp_runner_by = js_or (js_get data ''runner_by'') (JStr ''unknown'')\<rparr>)"

definition snapshotComparableMap :: "pool \<Rightarrow> (string \<times> comparable) list" where
  "snapshotComparableMap st =
     map (\<lambda>(k, w). (k, \<lparr>cmp_url = js_or (url w) (JStr []),
                         cmp_upload_at = (if upload_at w \<noteq> 0 then upload_at w else 0),
                         cmp_version = js_or (version w) (JStr ''unknown''),
                         cmp_runner_by = js_or (runner_by w) (JStr ''unknown'')\<rparr>))
         (workers st)"

text \<open>\<^verbatim>\<open>xs[i]\<close>: \<^verbatim>\<open>undefined\<close> beyond the end.\<close>

definition nth_opt :: "'a list \<Rightarrow> nat \<Rightarrow> 'a option" where
  "nth_opt xs i = (if i < length xs then Some (xs ! i) else None)"

text \<open>\<^verbatim>\<open>Array.prototype.indexOf\<close>: the first position, or -1.\<close>

fun indexOf :: "'a list \<Rightarrow> 'a \<Rightarrow> int" where
  "indexOf [] x = - 1"
| "indexOf (y # ys) x =
     (if y = x then 0 else (let i = indexOf ys x in if i < 0 then - 1 else i + 1))"

text \<open>
  \<^verbatim>\<open>_resort\<close>. \<^verbatim>\<open>Array.prototype.sort\<close> is stable, and the comparator
  \<^verbatim>\<open>a.upload_at - b.upload_at\<close> orders finite numbers ascending, so the sort is the stable
  \<^const>\<open>sort_key\<close> of the values in \<^verbatim>\<open>Map\<close> order. \<^verbatim>\<open>if (currentKey)\<close> holds for a
  defined, non-empty key: the pattern \<open>Some (c # cs)\<close>.
\<close>

definition resort :: "pool \<Rightarrow> pool" where
  "resort st =
     (let currentKey = nth_opt (sortedKeys st) (currentIndex st);
          keys = map key (sort_key upload_at (map snd (workers st)));
          st1 = st\<lparr>sortedKeys := keys\<rparr>
      in if keys = [] then st1\<lparr>currentIndex := 0\<rparr>
         else (case currentKey of
                 Some (c # cs) \<Rightarrow>
                   (let idx = indexOf keys (c # cs)
                    in st1\<lparr>currentIndex := (if idx \<ge> 0 then nat idx else 0)\<rparr>)
               | _ \<Rightarrow>
                   (if currentIndex st \<ge> length keys then st1\<lparr>currentIndex := 0\<rparr>
                    else st1)))"

definition updateWorker ::
  "(string \<Rightarrow> rat option) \<Rightarrow> rat \<Rightarrow> string \<Rightarrow> jsval \<Rightarrow> bool \<Rightarrow> pool \<Rightarrow> bool \<times> pool" where
  "updateWorker dparse now k data rs st =
     (if \<not> truthy data \<or> \<not> truthy (js_get data ''url'') then (False, st)
      else
        (let uploadAt = normalizeUploadAt dparse now (js_get data ''upload_at'');
             prev = map_of (workers st) k;
             next = \<lparr>key = k, url = js_get data ''url'', upload_at = uploadAt,
                     version = js_or (js_get data ''version'') (JStr ''unknown''),
                     runner_by = js_or (js_get data ''runner_by'') (JStr ''unknown'')\<rparr>;
             st1 = st\<lparr>workers := AList.update k next (workers st)\<rparr>;
             st2 = (if rs then resort st1 else st1)
         in (case prev of
               None \<Rightarrow> (True, st2)
             | Some p \<Rightarrow>
                 (strict_neq (url p) (url next) \<or> upload_at p \<noteq> upload_at next
                  \<or> strict_neq (version p) (version next)
                  \<or> strict_neq (runner_by p) (runner_by next), st2))))"

definition removeWorker :: "string \<Rightarrow> bool \<Rightarrow> pool \<Rightarrow> bool \<times> pool" where
  "removeWorker k rs st =
     (if map_has (workers st) k then
        (let st1 = st\<lparr>workers := AList.delete k (workers st)\<rparr>
         in (True, if rs then resort st1 else st1))
      else (False, st))"

text \<open>
  \<^verbatim>\<open>getNextWorker\<close>: \<open>None\<close> is the \<^verbatim>\<open>null\<close> result. A worker record is an object,
  hence truthy, so \<^verbatim>\<open>worker || null\<close> is \<^verbatim>\<open>null\<close> exactly when the lookup finds nothing.
\<close>

definition getNextWorker :: "pool \<Rightarrow> worker option \<times> pool" where
  "getNextWorker st =
     (if sortedKeys st = [] then (None, st)
      else
        (let k = nth_opt (sortedKeys st) (currentIndex st);
             w = (case k of None \<Rightarrow> None | Some k' \<Rightarrow> map_of (workers st) k')
         in (w, st\<lparr>currentIndex := (currentIndex st + 1) mod length (sortedKeys st)\<rparr>)))"

definition getAllWorkers :: "pool \<Rightarrow> worker list" where
  "getAllWorkers st = sort_key upload_at (map snd (workers st))"

definition pool_size :: "pool \<Rightarrow> nat" where
  "pool_size st = length (workers st)"

subsection \<open>syncFromObject\<close>

text \<open>
  The argument \<open>incoming\<close> is \<^verbatim>\<open>Object.entries(obj || {})\<close>, in enumeration order; the
  keys of a JavaScript object are distinct. \<open>clock k\<close> is what \<^verbatim>\<open>Date.now()\<close> reads
  while entry \<open>k\<close> is ingested. The method returns nothing; the model returns the three
  lists it builds and logs.
\<close>

record sync_diff =
  added :: "string list"
  removed :: "string list"
  updated :: "string list"

text \<open>The first loop: every key of the map that the snapshot lacks is deleted.\<close>

fun remove_missing :: "string list \<Rightarrow> string list \<Rightarrow> string list \<times> pool \<Rightarrow> string list \<times> pool" where
  "remove_missing nextKeys [] acc = acc"
| "remove_missing nextKeys (k # ks) (rmv, st) =
     (if k \<notin> set nextKeys then
        (let (ok, st') = removeWorker k False st
         in remove_missing nextKeys ks (if ok then rmv @ [k] else rmv, st'))
      else remove_missing nextKeys ks (rmv, st))"

text \<open>The own properties that \<^verbatim>\<open>{...raw}\<close> copies; only objects reach the spread.\<close>

fun own_props :: "jsval \<Rightarrow> (string \<times> jsval) list" where
  "own_props (JObj a fs) = fs"
| "own_props v = []"

text \<open>
  The argument of \<^verbatim>\<open>updateWorker\<close> in the second loop:
  \<^verbatim>\<open>{ ...raw, upload_at: c.upload_at, version: c.version, runner_by: c.runner_by }\<close>.
  The spread copies the property values of \<^verbatim>\<open>raw\<close> as they are, references included.
  The literal is a new object that \<^verbatim>\<open>updateWorker\<close> only reads properties from and
  then drops; its address is never compared, and the model writes 0 for it.
\<close>

definition spread_data :: "comparable \<Rightarrow> jsval \<Rightarrow> jsval" where
  "spread_data c raw =
     JObj 0 (AList.update ''runner_by'' (cmp_runner_by c)
              (AList.update ''version'' (cmp_version c)
                (AList.update ''upload_at'' (JNum (cmp_upload_at c)) (own_props raw))))"

text \<open>The second loop: every entry with a usable url is upserted, the others are skipped.\<close>

fun upsert_all ::
  "(string \<Rightarrow> rat option) \<Rightarrow> (string \<Rightarrow> rat) \<Rightarrow> (string \<times> comparable) list \<Rightarrow>
   (string \<times> jsval) list \<Rightarrow> string list \<times> string list \<times> pool \<Rightarrow> string list \<times> string list \<times> pool" where
  "upsert_all dparse clock bef [] acc = acc"
| "upsert_all dparse clock bef ((k, raw) # es) (adds, upds, st) =
     (case toComparable dparse (clock k) raw of
        None \<Rightarrow> upsert_all dparse clock bef es (adds, upds, st)
      | Some nextComp \<Rightarrow>
          if \<not> truthy (cmp_url nextComp) then upsert_all dparse clock bef es (adds, upds, st)
          else
            (let existed = map_has bef k;
                 (changed, st') =
                   updateWorker dparse (clock k) k (spread_data nextComp raw) False st
             in upsert_all dparse clock bef es
                  (if \<not> existed then adds @ [k] else adds,
                   if existed \<and> changed then upds @ [k] else upds,
                   st')))"

definition syncFromObject ::
  "(string \<Rightarrow> rat option) \<Rightarrow> (string \<Rightarrow> rat) \<Rightarrow> (string \<times> jsval) list \<Rightarrow> pool \<Rightarrow> sync_diff \<times> pool" where
  "syncFromObject dparse clock incoming st =
     (let bef = snapshotComparableMap st;
          nextKeys = map fst incoming;
          (rmv, st1) = remove_missing nextKeys (map fst (workers st)) ([], st);
          (adds, upds, st2) = upsert_all dparse clock bef incoming ([], [], st1);
          st3 = resort st2
      in (\<lparr>added = adds, removed = rmv, updated = upds\<rparr>, st3\<lparr>firstSyncLogged := True\<rparr>))"

section \<open>The HTTP server\<close>

text \<open>
  Of an inbound request the handlers read the url and the \<^verbatim>\<open>x-request-id\<close> header (absent,
  or a string). What a handler does with the response or the socket is its outcome.
\<close>

record request =
  req_url :: string
  x_request_id :: "string option"

datatype js_error = RangeError

record health_entry =
  he_key :: string
  he_url :: jsval
  he_version :: jsval
  he_upload_at :: string

text \<open>
  The value handed to \<^verbatim>\<open>JSON.stringify\<close>: the health report with its \<^verbatim>\<open>status\<close>,
  \<^verbatim>\<open>workers\<close> and \<^verbatim>\<open>total_workers\<close>, or an error object with its \<^verbatim>\<open>error\<close>,
  \<^verbatim>\<open>message\<close> and \<^verbatim>\<open>request_id\<close>.
\<close>

datatype body =
    HealthBody string "health_entry list" nat
  | ErrorBody string string string

text \<open>
  \<open>Respond status body\<close> is \<^verbatim>\<open>res.writeHead(status, ...)\<close> followed by \<^verbatim>\<open>res.end\<close> of
  the serialised body. \<open>ProxyWeb\<close> and \<open>ProxyWs\<close> hand the request to the proxy engine
  with the worker's url as target, after setting the headers \<^verbatim>\<open>x-request-id\<close>,
  \<^verbatim>\<open>x-proxy-worker\<close> and \<^verbatim>\<open>x-proxy-worker-version\<close>. \<open>SocketDestroy\<close> is
  \<^verbatim>\<open>socket.destroy()\<close>. \<open>Throws\<close> is an exception that leaves the handler.
\<close>

datatype outcome =
    Respond nat body
  | ProxyWeb jsval string string jsval
  | ProxyWs jsval string string jsval
  | SocketDestroy
  | Throws js_error

text \<open>
  \<^verbatim>\<open>new Date(v)\<close> clips its argument: a magnitude beyond 8.64e15 milliseconds gives an
  invalid date, anything else is truncated towards zero.
\<close>

definition time_clip :: "rat \<Rightarrow> int option" where
  "time_clip v =
     (if \<bar>v\<bar> > 8640000000000000 then None
      else Some (if v \<ge> 0 then \<lfloor>v\<rfloor> else \<lceil>v\<rceil>))"

text \<open>
  \<^verbatim>\<open>new Date(v).toISOString()\<close> throws a \<^verbatim>\<open>RangeError\<close> on an invalid date; the calendar
  formatting of a valid time value is the runtime's, the parameter \<open>fmt\<close>.
\<close>

definition toISOString :: "(int \<Rightarrow> string) \<Rightarrow> rat \<Rightarrow> js_error + string" where
  "toISOString fmt v = (case time_clip v of None \<Rightarrow> Inl RangeError | Some t \<Rightarrow> Inr (fmt t))"

text \<open>The \<^verbatim>\<open>map\<close> over \<^verbatim>\<open>getAllWorkers()\<close> in the health branch.\<close>

fun health_entries :: "(int \<Rightarrow> string) \<Rightarrow> worker list \<Rightarrow> js_error + health_entry list" where
  "health_entries fmt [] = Inr []"
| "health_entries fmt (w # ws) =
     (case toISOString fmt (upload_at w) of
        Inl e \<Rightarrow> Inl e
      | Inr s \<Rightarrow>
          (case health_entries fmt ws of
             Inl e \<Rightarrow> Inl e
           | Inr es \<Rightarrow>
               Inr (\<lparr>he_key = key w, he_url = url w, he_version = version w,
                      he_upload_at = s\<rparr> # es)))"

text \<open>The message of the 503 body, as the UTF-8 bytes of the source text.\<close>

definition message_503 :: string where
  "message_503 = map char_of
     [75, 104, 195, 180, 110, 103, 32, 99, 195, 179, 32, 119, 111, 114, 107, 101, 114, 32,
      110, 195, 160, 111, 32, 196, 145, 97, 110, 103, 32, 104, 111, 225, 186, 161, 116, 32,
      196, 145, 225, 187, 153, 110, 103 :: nat]"

text \<open>
  The request id: the header when it is present and non-empty, a fresh identifier
  otherwise (\<open>uuid\<close> is what \<^verbatim>\<open>uuidv4()\<close> returns).
\<close>

definition request_id_of :: "string \<Rightarrow> request \<Rightarrow> string" where
  "request_id_of uuid req = (case x_request_id req of Some (c # cs) \<Rightarrow> c # cs | _ \<Rightarrow> uuid)"

text \<open>The \<^verbatim>\<open>http.createServer\<close> request handler.\<close>

definition handle_request :: "(int \<Rightarrow> string) \<Rightarrow> string \<Rightarrow> request \<Rightarrow> pool \<Rightarrow> outcome \<times> pool" where
  "handle_request fmt uuid req st =
     (if req_url req = ''/health'' \<or> req_url req = ''/health/''
         \<or> req_url req = ''/nginx-health'' \<or> req_url req = ''/nginx-health/''
      then
        (case health_entries fmt (getAllWorkers st) of
           Inl e \<Rightarrow> (Throws e, st)
         | Inr es \<Rightarrow> (Respond 200 (HealthBody ''ok'' es (pool_size st)), st))
      else
        (let reqId = request_id_of uuid req;
             (worker, st') = getNextWorker st
         in case worker of
              None \<Rightarrow> (Respond 503 (ErrorBody ''Service Unavailable'' message_503 reqId), st')
            | Some w \<Rightarrow> (ProxyWeb (url w) reqId (key w) (version w), st')))"


section \<open>Runs of the pool\<close>

text \<open>
  The states a pool can be in: it starts as the constructor leaves it, and the only
  callers are the feed callback (\<^verbatim>\<open>syncFromObject\<close>) and the two handlers
  (\<^verbatim>\<open>getNextWorker\<close>). Any parser, clock and entry list are admitted.
\<close>

inductive reachable :: "pool \<Rightarrow> bool" where
  initial: "reachable new_pool"
| by_sync: "reachable st \<Longrightarrow> reachable (snd (syncFromObject dparse clock incoming st))"
| by_next: "reachable st \<Longrightarrow> reachable (snd (getNextWorker st))"

text \<open>\<open>n\<close> successive calls of \<^verbatim>\<open>getNextWorker\<close>, with their results in order.\<close>

fun next_n :: "nat \<Rightarrow> pool \<Rightarrow> worker option list \<times> pool" where
  "next_n 0 st = ([], st)"
| "next_n (Suc n) st =
     (let (w, st1) = getNextWorker st; (ws, st2) = next_n n st1 in (w # ws, st2))"

text \<open>
  Vocabulary for the statements below. An entry is usable when the raw value and its
  \<^verbatim>\<open>url\<close> are both truthy; \<open>record_of\<close> is the record such an entry is stored as.
\<close>

definition has_url :: "jsval \<Rightarrow> bool" where
  "has_url raw = (truthy raw \<and> truthy (js_get raw ''url''))"

definition record_of :: "(string \<Rightarrow> rat option) \<Rightarrow> rat \<Rightarrow> string \<Rightarrow> jsval \<Rightarrow> worker" where
  "record_of dparse now k raw =
     \<lparr>key = k, url = js_get raw ''url'',
      upload_at = normalizeUploadAt dparse now (js_get raw ''upload_at''),
      version = js_or (js_get raw ''version'') (JStr ''unknown''),
      runner_by = js_or (js_get raw ''runner_by'') (JStr ''unknown'')\<rparr>"

fun upsert_workers ::
  "(string \<Rightarrow> rat option) \<Rightarrow> (string \<Rightarrow> rat) \<Rightarrow> (string \<times> jsval) list \<Rightarrow>
   (string \<times> worker) list \<Rightarrow> (string \<times> worker) list" where
  "upsert_workers dparse clock [] ws = ws"
| "upsert_workers dparse clock ((k, raw) # es) ws =
     upsert_workers dparse clock es
       (if has_url raw then AList.update k (record_of dparse (clock k) k raw) ws else ws)"

text \<open>The comparison that \<^verbatim>\<open>updateWorker\<close> returns for an existing record.\<close>

definition differs :: "worker \<Rightarrow> worker \<Rightarrow> bool" where
  "differs p n =
     (strict_neq (url p) (url n) \<or> upload_at p \<noteq> upload_at n
      \<or> strict_neq (version p) (version n) \<or> strict_neq (runner_by p) (runner_by n))"

text \<open>
  The invariant of the pool: the map has one entry per key, every record carries its own
  key and a truthy url, the sequence is the sorted key list of the map, and the cursor is
  within bounds.
\<close>

definition workers_ok :: "(string \<times> worker) list \<Rightarrow> bool" where
  "workers_ok ws = (distinct (map fst ws) \<and> (\<forall>p \<in> set ws. key (snd p) = fst p \<and> truthy (url (snd p))))"

definition cursor_in_bounds :: "pool \<Rightarrow> bool" where
  "cursor_in_bounds st =
     (if sortedKeys st = [] then currentIndex st = 0
      else currentIndex st < length (sortedKeys st))"

definition pool_inv :: "pool \<Rightarrow> bool" where
  "pool_inv st =
     (workers_ok (workers st)
      \<and> sortedKeys st = map key (sort_key upload_at (map snd (workers st)))
      \<and> cursor_in_bounds st)"

text \<open>The snapshot of scenario 2: \<^verbatim>\<open>w1\<close> uploaded at 100, \<^verbatim>\<open>w2\<close> at 50.\<close>

definition scenario2 :: "(string \<times> jsval) list" where
  "scenario2 =
     [(''w1'', JObj 1 [(''url'', JStr ''http://h1''), (''upload_at'', JNum 100)]),
      (''w2'', JObj 2 [(''url'', JStr ''http://h2''), (''upload_at'', JNum 50)])]"

text \<open>The pool after its first reconcile with scenario 2, and after one more dispatch.\<close>

definition pool2 :: pool where
  "pool2 = snd (syncFromObject (\<lambda>s. None) (\<lambda>k. 0) scenario2 new_pool)"

definition pool2_next :: pool where
  "pool2_next = snd (getNextWorker pool2)"

text \<open>
  Snapshots for the stability scenario: \<^verbatim>\<open>A\<close>, \<^verbatim>\<open>B\<close>, \<^verbatim>\<open>C\<close> uploaded at 1, 2, 3;
  the same without \<^verbatim>\<open>B\<close>; and \<^verbatim>\<open>B\<close>, \<^verbatim>\<open>C\<close> with a new \<^verbatim>\<open>D\<close> uploaded at 4.
  Every delivery of the feed is a new object graph, so each snapshot has addresses of its
  own.
\<close>

definition entry :: "nat \<Rightarrow> string \<Rightarrow> rat \<Rightarrow> jsval" where
  "entry a u t = JObj a [(''url'', JStr u), (''upload_at'', JNum t)]"

definition snapshotABC :: "(string \<times> jsval) list" where
  "snapshotABC =
     [(''A'', entry 1 ''http://a'' 1), (''B'', entry 2 ''http://b'' 2),
      (''C'', entry 3 ''http://c'' 3)]"

definition snapshotAC :: "(string \<times> jsval) list" where
  "snapshotAC = [(''A'', entry 11 ''http://a'' 1), (''C'', entry 13 ''http://c'' 3)]"

definition snapshotBCD :: "(string \<times> jsval) list" where
  "snapshotBCD =
     [(''B'', entry 22 ''http://b'' 2), (''C'', entry 23 ''http://c'' 3),
      (''D'', entry 24 ''http://d'' 4)]"

text \<open>The pool holding \<^verbatim>\<open>[A, B, C]\<close> with the cursor on \<^verbatim>\<open>B\<close>.\<close>

definition poolABC_at_B :: pool where
  "poolABC_at_B =
     snd (getNextWorker (snd (syncFromObject (\<lambda>s. None) (\<lambda>k. 0) snapshotABC new_pool)))"

text \<open>The record stored for a worker that gave only a url and a numeric timestamp.\<close>

definition stored :: "string \<Rightarrow> string \<Rightarrow> rat \<Rightarrow> string \<times> worker" where
  "stored k u t = (k, \<lparr>key = k, url = JStr u, upload_at = t,
                     version = JStr ''unknown'', runner_by = JStr ''unknown''\<rparr>)"

text \<open>
  Scenario 2 again, with the url of \<^verbatim>\<open>w1\<close> now empty; and a snapshot whose \<^verbatim>\<open>w1\<close> still
  carries the pending-server-time placeholder while \<^verbatim>\<open>w2\<close> was uploaded at 1500.
\<close>

definition scenario2_w1_no_url :: "(string \<times> jsval) list" where
  "scenario2_w1_no_url =
     [(''w1'', JObj 31 [(''url'', JStr []), (''upload_at'', JNum 100)]),
      (''w2'', entry 32 ''http://h2'' 50)]"

definition snapshot_pending :: "(string \<times> jsval) list" where
  "snapshot_pending =
     [(''w1'', JObj 41 [(''url'', JStr ''http://h1''),
                        (''upload_at'', JObj 43 [(''.sv'', JStr ''timestamp'')])]),
      (''w2'', entry 42 ''http://h2'' 1500)]"

text \<open>No difference reported.\<close>

definition empty_diff :: sync_diff where
  "empty_diff = \<lparr>added = [], removed = [], updated = []\<rparr>"

text \<open>
  A snapshot whose only worker reports a timestamp one millisecond beyond the largest
  time value a \<^verbatim>\<open>Date\<close> holds, and two requests.
\<close>

definition snapshot_far_future :: "(string \<times> jsval) list" where
  "snapshot_far_future = [(''w1'', entry 51 ''http://h1'' 8640000000000001)]"

definition health_request :: request where
  "health_request = \<lparr>req_url = ''/health'', x_request_id = None\<rparr>"

definition health_query_request :: request where
  "health_query_request = \<lparr>req_url = ''/health?x=1'', x_request_id = None\<rparr>"

text \<open>
  A second delivery of an entry, seen from the fields the pool stores: the same key,
  usable in both deliveries or in neither, and for a usable entry the same url, the same
  normalised timestamp (the first delivery is read at \<open>clock1\<close>, the second at
  \<open>clock2\<close>), and the same version and runner label after defaulting. Equality of a url,
  version or label is \<^verbatim>\<open>===\<close>: it holds for equal primitive values and for one and the
  same object, not for two objects with equal contents.
\<close>

definition redelivered ::
  "(string \<Rightarrow> rat option) \<Rightarrow> (string \<Rightarrow> rat) \<Rightarrow> (string \<Rightarrow> rat) \<Rightarrow>
   string \<times> jsval \<Rightarrow> string \<times> jsval \<Rightarrow> bool" where
  "redelivered dparse clock1 clock2 e1 e2 =
     (fst e2 = fst e1 \<and> has_url (snd e2) = has_url (snd e1)
      \<and> (has_url (snd e1) \<longrightarrow>
            js_get (snd e2) ''url'' = js_get (snd e1) ''url''
          \<and> normalizeUploadAt dparse (clock2 (fst e1)) (js_get (snd e2) ''upload_at'')
              = normalizeUploadAt dparse (clock1 (fst e1)) (js_get (snd e1) ''upload_at'')
          \<and> js_or (js_get (snd e2) ''version'') (JStr ''unknown'')
              = js_or (js_get (snd e1) ''version'') (JStr ''unknown'')
          \<and> js_or (js_get (snd e2) ''runner_by'') (JStr ''unknown'')
              = js_or (js_get (snd e1) ''runner_by'') (JStr ''unknown'')))"

text \<open>Scenario 2 delivered once more: the same contents in new objects.\<close>

definition scenario2_again :: "(string \<times> jsval) list" where
  "scenario2_again =
     [(''w1'', JObj 61 [(''url'', JStr ''http://h1''), (''upload_at'', JNum 100)]),
      (''w2'', JObj 62 [(''url'', JStr ''http://h2''), (''upload_at'', JNum 50)])]"

text \<open>
  A worker whose url is an object, in two deliveries: the contents agree, the objects are
  different ones.
\<close>

definition snapshot_object_url :: "(string \<times> jsval) list" where
  "snapshot_object_url =
     [(''w1'', JObj 71 [(''url'', JObj 72 [(''host'', JStr ''h1'')]), (''upload_at'', JNum 100)])]"

definition snapshot_object_url_again :: "(string \<times> jsval) list" where
  "snapshot_object_url_again =
     [(''w1'', JObj 81 [(''url'', JObj 82 [(''host'', JStr ''h1'')]), (''upload_at'', JNum 100)])]"

section \<open>Auxiliary facts\<close>

lemma indexOf_ge: "- 1 \<le> indexOf xs x"
  by (induction xs) (auto simp: Let_def)

lemma indexOf_nonneg_iff: "0 \<le> indexOf xs x \<longleftrightarrow> x \<in> set xs"
  using indexOf_ge[of _ x] by (induction xs) (auto simp: Let_def)

lemma indexOf_nth:
  "x \<in> set xs \<Longrightarrow> nat (indexOf xs x) < length xs \<and> xs ! nat (indexOf xs x) = x"
proof (induction xs)
  case Nil
  then show ?case by simp
next
  case (Cons y ys)
  show ?case
  proof (cases "y = x")
    case True
    then show ?thesis by simp
  next
    case False
    with Cons.prems have mem: "x \<in> set ys" by simp
    then have nn: "0 \<le> indexOf ys x" by (simp add: indexOf_nonneg_iff)
    then have "nat (indexOf ys x + 1) = Suc (nat (indexOf ys x))" by simp
    with False nn Cons.IH[OF mem] show ?thesis by (simp add: Let_def)
  qed
qed

lemma indexOf_distinct: "distinct xs \<Longrightarrow> i < length xs \<Longrightarrow> indexOf xs (xs ! i) = int i"
proof (induction xs arbitrary: i)
  case Nil
  then show ?case by simp
next
  case (Cons y ys)
  show ?case
  proof (cases i)
    case 0
    then show ?thesis by simp
  next
    case (Suc j)
    with Cons.prems have j: "j < length ys" and d: "distinct ys" and ny: "y \<notin> set ys" by auto
    from j ny have "ys ! j \<noteq> y" by (metis nth_mem)
    with Cons.IH[OF d j] Suc show ?thesis by (simp add: Let_def)
  qed
qed

lemma removeWorker_state:
  "snd (removeWorker k False st) = st\<lparr>workers := AList.delete k (workers st)\<rparr>"
  by (simp add: removeWorker_def map_has_def)

lemma removeWorker_ok: "fst (removeWorker k rs st) = map_has (workers st) k"
  by (simp add: removeWorker_def Let_def)

lemma remove_missing_state:
  "snd (remove_missing nk ks (r, st)) =
     st\<lparr>workers := filter (\<lambda>p. fst p \<in> set nk \<or> fst p \<notin> set ks) (workers st)\<rparr>"
proof (induction ks arbitrary: r st)
  case Nil
  then show ?case by simp
next
  case (Cons k ks)
  show ?case
  proof (cases "k \<in> set nk")
    case True
    have "filter (\<lambda>p. fst p \<in> set nk \<or> fst p \<notin> set (k # ks)) (workers st)
          = filter (\<lambda>p. fst p \<in> set nk \<or> fst p \<notin> set ks) (workers st)"
      using True by (intro filter_cong) auto
    with True Cons.IH show ?thesis by simp
  next
    case False
    obtain ok st' where rw: "removeWorker k False st = (ok, st')" by (cases "removeWorker k False st")
    then have st': "st' = st\<lparr>workers := AList.delete k (workers st)\<rparr>"
      using removeWorker_state[of k st] by simp
    have "filter (\<lambda>p. fst p \<in> set nk \<or> fst p \<notin> set ks) (AList.delete k (workers st))
          = filter (\<lambda>p. fst p \<in> set nk \<or> fst p \<notin> set (k # ks)) (workers st)"
      using False by (auto simp: AList.delete_eq intro!: filter_cong)
    with False rw st' Cons.IH[of _ st'] show ?thesis by simp
  qed
qed

lemma remove_missing_noop: "set ks \<subseteq> set nk \<Longrightarrow> remove_missing nk ks acc = acc"
  by (induction ks arbitrary: acc) (auto split: prod.splits)

lemma js_or_idem: "truthy d \<Longrightarrow> js_or (js_or a d) d = js_or a d"
  by (simp add: js_or_def)

lemma has_url_obj: "has_url raw \<Longrightarrow> \<exists>a fs. raw = JObj a fs"
  by (cases raw) (simp_all add: has_url_def)

lemma toComparable_skip:
  "\<not> has_url raw \<Longrightarrow>
     (case toComparable dparse now raw of None \<Rightarrow> True | Some c \<Rightarrow> \<not> truthy (cmp_url c))"
  by (auto simp: toComparable_def has_url_def js_or_def)

lemma toComparable_has_url:
  "has_url raw \<Longrightarrow>
     toComparable dparse now raw =
       Some \<lparr>cmp_url = js_get raw ''url'',
             cmp_upload_at = normalizeUploadAt dparse now (js_get raw ''upload_at''),
             cmp_version = js_or (js_get raw ''version'') (JStr ''unknown''),
             cmp_runner_by = js_or (js_get raw ''runner_by'') (JStr ''unknown'')\<rparr>"
  by (auto simp: toComparable_def has_url_def js_or_def)

lemma spread_get:
  "js_get (spread_data c (JObj a fs)) ''url'' = js_get (JObj a fs) ''url''"
  "js_get (spread_data c (JObj a fs)) ''upload_at'' = JNum (cmp_upload_at c)"
  "js_get (spread_data c (JObj a fs)) ''version'' = cmp_version c"
  "js_get (spread_data c (JObj a fs)) ''runner_by'' = cmp_runner_by c"
  by (simp_all add: spread_data_def update_conv')

lemma updateWorker_spread:
  assumes h: "has_url raw" and tc: "toComparable dparse now raw = Some c"
  shows "updateWorker dparse now k (spread_data c raw) False st =
           ((case map_of (workers st) k of None \<Rightarrow> True
             | Some p \<Rightarrow> differs p (record_of dparse now k raw)),
            st\<lparr>workers := AList.update k (record_of dparse now k raw) (workers st)\<rparr>)"
proof -
  from h obtain a fs where raw: "raw = JObj a fs" using has_url_obj by blast
  from h tc have c: "c = \<lparr>cmp_url = js_get raw ''url'',
             cmp_upload_at = normalizeUploadAt dparse now (js_get raw ''upload_at''),
             cmp_version = js_or (js_get raw ''version'') (JStr ''unknown''),
             cmp_runner_by = js_or (js_get raw ''runner_by'') (JStr ''unknown'')\<rparr>"
    by (simp add: toComparable_has_url)
  have g: "js_get (spread_data c raw) ''url'' = js_get raw ''url''"
      "js_get (spread_data c raw) ''upload_at'' = JNum (cmp_upload_at c)"
      "js_get (spread_data c raw) ''version'' = cmp_version c"
      "js_get (spread_data c raw) ''runner_by'' = cmp_runner_by c"
    unfolding raw by (rule spread_get)+
  have t: "truthy (spread_data c raw)" by (simp add: spread_data_def)
  have u: "truthy (js_get raw ''url'')" using h by (simp add: has_url_def)
  have v: "js_or (cmp_version c) (JStr ''unknown'') = js_or (js_get raw ''version'') (JStr ''unknown'')"
      "js_or (cmp_runner_by c) (JStr ''unknown'') = js_or (js_get raw ''runner_by'') (JStr ''unknown'')"
    by (simp_all add: c js_or_def)
  have n: "cmp_upload_at c = normalizeUploadAt dparse now (js_get raw ''upload_at'')"
    by (simp add: c)
  show ?thesis
    unfolding updateWorker_def g
    by (simp add: t u v n Let_def record_of_def differs_def split: option.split)
qed

lemma upsert_all_state:
  "snd (snd (upsert_all dparse clock bef es (a, u, st))) =
     st\<lparr>workers := upsert_workers dparse clock es (workers st)\<rparr>"
proof (induction es arbitrary: a u st)
  case Nil
  then show ?case by simp
next
  case (Cons e es)
  obtain k raw where e: "e = (k, raw)" by (cases e)
  show ?case
  proof (cases "has_url raw")
    case False
    from toComparable_skip[OF False, of dparse "clock k"] False Cons.IH[of a u st]
    show ?thesis unfolding e by (auto split: option.splits)
  next
    case True
    obtain c where tc: "toComparable dparse (clock k) raw = Some c"
      using toComparable_has_url[OF True] by blast
    have tu: "truthy (cmp_url c)" using True tc by (auto simp: toComparable_has_url has_url_def)
    show ?thesis unfolding e
      using True tc tu updateWorker_spread[OF True tc, of k st]
      by (simp add: Cons.IH Let_def)
  qed
qed

lemma upsert_all_noop:
  assumes "\<forall>e \<in> set es. has_url (snd e) \<longrightarrow>
             map_has bef (fst e) \<and>
             map_of (workers st) (fst e) = Some (record_of dparse (clock (fst e)) (fst e) (snd e))"
  shows "upsert_all dparse clock bef es (a, u, st) = (a, u, st)"
  using assms
proof (induction es)
  case Nil
  then show ?case by simp
next
  case (Cons e es)
  obtain k raw where e: "e = (k, raw)" by (cases e)
  show ?case
  proof (cases "has_url raw")
    case False
    from toComparable_skip[OF False, of dparse "clock k"] False Cons
    show ?thesis unfolding e by (auto split: option.splits)
  next
    case True
    obtain c where tc: "toComparable dparse (clock k) raw = Some c"
      using toComparable_has_url[OF True] by blast
    have tu: "truthy (cmp_url c)" using True tc by (auto simp: toComparable_has_url has_url_def)
    from Cons.prems True have mh: "map_has bef k"
      and mo: "map_of (workers st) k = Some (record_of dparse (clock k) k raw)"
      unfolding e by auto
    have nd: "\<not> differs (record_of dparse (clock k) k raw) (record_of dparse (clock k) k raw)"
      using True by (auto simp: differs_def strict_neq_def record_of_def has_url_def js_or_def)
    have same: "st\<lparr>workers := AList.update k (record_of dparse (clock k) k raw) (workers st)\<rparr> = st"
      using mo by (simp add: update_triv)
    from Cons.prems have rest: "\<forall>e \<in> set es. has_url (snd e) \<longrightarrow>
             map_has bef (fst e) \<and>
             map_of (workers st) (fst e) = Some (record_of dparse (clock (fst e)) (fst e) (snd e))"
      by simp
    show ?thesis unfolding e
      using tc tu mh nd updateWorker_spread[OF True tc, of k st] Cons.IH[OF rest]
      by (simp add: mo same Let_def)
  qed
qed

lemma sync_state:
  "snd (syncFromObject dparse clock inc st) =
     (resort (st\<lparr>workers := upsert_workers dparse clock inc
                     (filter (\<lambda>p. fst p \<in> fst ` set inc) (workers st))\<rparr>))\<lparr>firstSyncLogged := True\<rparr>"
proof -
  obtain r st1 where rm: "remove_missing (map fst inc) (map fst (workers st)) ([], st) = (r, st1)"
    by (cases "remove_missing (map fst inc) (map fst (workers st)) ([], st)")
  have "filter (\<lambda>p. fst p \<in> set (map fst inc) \<or> fst p \<notin> set (map fst (workers st))) (workers st)
        = filter (\<lambda>p. fst p \<in> fst ` set inc) (workers st)"
    by (intro filter_cong) auto
  with remove_missing_state[of "map fst inc" "map fst (workers st)" "[]" st] rm
  have st1: "st1 = st\<lparr>workers := filter (\<lambda>p. fst p \<in> fst ` set inc) (workers st)\<rparr>"
    by simp
  obtain a u st2 where up: "upsert_all dparse clock (snapshotComparableMap st) inc ([], [], st1) = (a, u, st2)"
    by (cases "upsert_all dparse clock (snapshotComparableMap st) inc ([], [], st1)")
  with upsert_all_state[of dparse clock "snapshotComparableMap st" inc "[]" "[]" st1]
  have st2: "st2 = st1\<lparr>workers := upsert_workers dparse clock inc (workers st1)\<rparr>" by simp
  show ?thesis
    unfolding syncFromObject_def Let_def rm prod.case up
    by (simp add: st2 st1)
qed

lemma map_key_snd:
  assumes "\<forall>p \<in> set ws. key (snd p) = fst p"
  shows "map key (map snd ws) = map fst ws"
  using assms by (induction ws) auto

lemma keys_of_sorted:
  assumes "\<forall>p \<in> set ws. key (snd p) = fst p"
  shows "set (map key (sort_key upload_at (map snd ws))) = fst ` set ws"
proof -
  have "set (map key (sort_key upload_at (map snd ws))) = set (map key (map snd ws))"
    by (simp only: set_map set_sort)
  also have "\<dots> = set (map fst ws)" by (simp only: map_key_snd[OF assms])
  finally show ?thesis by simp
qed

lemma distinct_sorted_keys:
  assumes "distinct (map fst ws)" and "\<forall>p \<in> set ws. key (snd p) = fst p"
  shows "distinct (map key (sort_key upload_at (map snd ws)))"
proof -
  have "distinct (map key (map snd ws))" using assms(1) by (simp only: map_key_snd[OF assms(2)])
  then show ?thesis by (simp only: distinct_map set_sort distinct_sort)
qed

lemma set_update_subset: "set (AList.update k v al) \<subseteq> insert (k, v) (set al)"
  by (induction al) auto

lemma pool_inv_logged [simp]: "pool_inv (st\<lparr>firstSyncLogged := b\<rparr>) = pool_inv st"
  by (simp add: pool_inv_def cursor_in_bounds_def)

lemma resort_workers [simp]: "workers (resort st) = workers st"
  by (simp add: resort_def Let_def split: option.split list.split)

lemma resort_sortedKeys:
  "sortedKeys (resort st) = map key (sort_key upload_at (map snd (workers st)))"
  by (simp add: resort_def Let_def split: option.split list.split)

lemma resort_cursor_bound: "cursor_in_bounds (resort st)"
proof -
  let ?keys = "map key (sort_key upload_at (map snd (workers st)))"
  have idx: "\<And>k. 0 \<le> indexOf ?keys k \<Longrightarrow> nat (indexOf ?keys k) < length ?keys"
    using indexOf_nth[of _ ?keys] by (simp add: indexOf_nonneg_iff)
  show ?thesis
    unfolding resort_def Let_def cursor_in_bounds_def
    using idx by (auto split: option.split list.split)
qed

lemma pool_inv_cursor:
  "pool_inv st \<Longrightarrow> sortedKeys st \<noteq> [] \<Longrightarrow> currentIndex st < length (sortedKeys st)"
  unfolding pool_inv_def cursor_in_bounds_def by metis

lemma pool_inv_cursor0: "pool_inv st \<Longrightarrow> sortedKeys st = [] \<Longrightarrow> currentIndex st = 0"
  unfolding pool_inv_def cursor_in_bounds_def by metis

lemma pool_inv_sorted:
  "pool_inv st \<Longrightarrow> sortedKeys st = map key (sort_key upload_at (map snd (workers st)))"
  unfolding pool_inv_def by (elim conjE)

lemma pool_invI:
  "workers_ok (workers st) \<Longrightarrow>
   sortedKeys st = map key (sort_key upload_at (map snd (workers st))) \<Longrightarrow>
   cursor_in_bounds st \<Longrightarrow>
   pool_inv st"
  unfolding pool_inv_def by (intro conjI)

lemma resort_inv: "workers_ok (workers st) \<Longrightarrow> pool_inv (resort st)"
proof (rule pool_invI)
  assume "workers_ok (workers st)"
  then show "workers_ok (workers (resort st))" by (simp only: resort_workers)
  show "sortedKeys (resort st) = map key (sort_key upload_at (map snd (workers (resort st))))"
    by (simp only: resort_workers resort_sortedKeys)
  show "cursor_in_bounds (resort st)"
    by (rule resort_cursor_bound)
qed

lemma pool_inv_workers_ok: "pool_inv st \<Longrightarrow> workers_ok (workers st)"
  unfolding pool_inv_def by (elim conjE)

lemma pool_inv_distinct_keys: "pool_inv st \<Longrightarrow> distinct (sortedKeys st)"
  using distinct_sorted_keys[of "workers st"] pool_inv_workers_ok[of st] pool_inv_sorted[of st]
  by (simp add: workers_ok_def)

lemma pool_inv_set_keys: "pool_inv st \<Longrightarrow> set (sortedKeys st) = fst ` set (workers st)"
  using keys_of_sorted[of "workers st"] pool_inv_workers_ok[of st] pool_inv_sorted[of st]
  by (simp add: workers_ok_def)

lemma resort_id:
  assumes "pool_inv st"
  shows "resort st = st"
proof -
  let ?keys = "map key (sort_key upload_at (map snd (workers st)))"
  from assms have sk: "sortedKeys st = ?keys" by (rule pool_inv_sorted)
  have d: "distinct (sortedKeys st)" using assms by (rule pool_inv_distinct_keys)
  show ?thesis
  proof (cases "sortedKeys st = []")
    case True
    with assms have "currentIndex st = 0" by (simp add: pool_inv_cursor0)
    with True sk show ?thesis by (simp add: resort_def Let_def)
  next
    case False
    with assms have c: "currentIndex st < length (sortedKeys st)" by (simp add: pool_inv_cursor)
    then have no: "nth_opt (sortedKeys st) (currentIndex st) = Some (sortedKeys st ! currentIndex st)"
      by (simp add: nth_opt_def)
    have ix: "indexOf (sortedKeys st) (sortedKeys st ! currentIndex st) = int (currentIndex st)"
      using d c by (rule indexOf_distinct)
    show ?thesis
    proof (cases "sortedKeys st ! currentIndex st")
      case Nil
      with False c no sk[symmetric] show ?thesis by (simp add: resort_def Let_def)
    next
      case (Cons a as)
      with False c no sk[symmetric] ix show ?thesis by (simp add: resort_def Let_def)
    qed
  qed
qed

lemma workers_ok_filter: "workers_ok ws \<Longrightarrow> workers_ok (filter P ws)"
  by (auto simp: workers_ok_def distinct_map_filter)

lemma workers_ok_update:
  "workers_ok ws \<Longrightarrow> key w = k \<Longrightarrow> truthy (url w) \<Longrightarrow> workers_ok (AList.update k w ws)"
  unfolding workers_ok_def
  using set_update_subset[of k w ws] by (auto simp: distinct_update)

lemma workers_ok_upsert: "workers_ok ws \<Longrightarrow> workers_ok (upsert_workers dparse clock es ws)"
proof (induction es arbitrary: ws)
  case Nil
  then show ?case by simp
next
  case (Cons e es)
  obtain k raw where e: "e = (k, raw)" by (cases e)
  show ?case unfolding e
    using Cons.prems
    by (auto intro!: Cons.IH workers_ok_update simp: record_of_def has_url_def)
qed

lemma sync_inv:
  assumes "pool_inv st"
  shows "pool_inv (snd (syncFromObject dparse clock inc st))"
proof -
  let ?ws = "upsert_workers dparse clock inc (filter (\<lambda>p. fst p \<in> fst ` set inc) (workers st))"
  have "workers_ok ?ws"
    using assms by (intro workers_ok_upsert workers_ok_filter pool_inv_workers_ok)
  then have "pool_inv (resort (st\<lparr>workers := ?ws\<rparr>))" by (intro resort_inv) simp
  then show ?thesis by (simp add: sync_state)
qed

lemma getNextWorker_fields:
  "workers (snd (getNextWorker st)) = workers st"
  "sortedKeys (snd (getNextWorker st)) = sortedKeys st"
  "firstSyncLogged (snd (getNextWorker st)) = firstSyncLogged st"
  "currentIndex (snd (getNextWorker st)) =
     (if sortedKeys st = [] then currentIndex st
      else (currentIndex st + 1) mod length (sortedKeys st))"
  by (simp_all add: getNextWorker_def Let_def)

lemma next_inv:
  assumes "pool_inv st"
  shows "pool_inv (snd (getNextWorker st))"
proof (rule pool_invI)
  show "workers_ok (workers (snd (getNextWorker st)))"
    using assms by (simp only: getNextWorker_fields pool_inv_workers_ok)
  show "sortedKeys (snd (getNextWorker st)) =
          map key (sort_key upload_at (map snd (workers (snd (getNextWorker st)))))"
    using pool_inv_sorted[OF assms] by (simp only: getNextWorker_fields)
  show "cursor_in_bounds (snd (getNextWorker st))"
    using pool_inv_cursor0[OF assms] by (simp add: getNextWorker_fields cursor_in_bounds_def)
qed

lemma reachable_inv: "reachable st \<Longrightarrow> pool_inv st"
proof (induction rule: reachable.induct)
  case initial
  show ?case by (simp add: pool_inv_def new_pool_def workers_ok_def cursor_in_bounds_def)
next
  case (by_sync st dparse clock incoming)
  then show ?case by (simp add: sync_inv)
next
  case (by_next st)
  then show ?case by (simp add: next_inv)
qed

lemmas sync_eval_defs = syncFromObject_def new_pool_def snapshotComparableMap_def
  toComparable_def js_or_def updateWorker_def removeWorker_def map_has_def resort_def nth_opt_def
  spread_data_def strict_neq_def Let_def

lemma scenario2_sync:
  "syncFromObject dparse clock scenario2 new_pool =
     (\<lparr>added = [''w1'', ''w2''], removed = [], updated = []\<rparr>,
      \<lparr>workers =
         [(''w1'', \<lparr>key = ''w1'', url = JStr ''http://h1'', upload_at = 100,
                    version = JStr ''unknown'', runner_by = JStr ''unknown''\<rparr>),
          (''w2'', \<lparr>key = ''w2'', url = JStr ''http://h2'', upload_at = 50,
                    version = JStr ''unknown'', runner_by = JStr ''unknown''\<rparr>)],
       sortedKeys = [''w2'', ''w1''], currentIndex = 0, firstSyncLogged = True\<rparr>)"
  by (simp add: scenario2_def sync_eval_defs)

lemma next_n_run:
  assumes "sortedKeys st \<noteq> []" and "currentIndex st < length (sortedKeys st)"
  shows "next_n n st =
           (map (\<lambda>i. map_of (workers st)
                        (sortedKeys st ! ((currentIndex st + i) mod length (sortedKeys st))))
                [0..<n],
            st\<lparr>currentIndex := (currentIndex st + n) mod length (sortedKeys st)\<rparr>)"
  using assms
proof (induction n arbitrary: st)
  case 0
  then show ?case by simp
next
  case (Suc n)
  let ?L = "length (sortedKeys st)"
  let ?c = "currentIndex st"
  let ?st1 = "st\<lparr>currentIndex := (?c + 1) mod ?L\<rparr>"
  have g: "getNextWorker st = (map_of (workers st) (sortedKeys st ! ?c), ?st1)"
    using Suc.prems by (simp add: getNextWorker_def Let_def nth_opt_def)
  have L: "0 < ?L" using Suc.prems by simp
  have ih: "next_n n ?st1 =
           (map (\<lambda>i. map_of (workers st) (sortedKeys st ! (((?c + 1) mod ?L + i) mod ?L))) [0..<n],
            ?st1\<lparr>currentIndex := ((?c + 1) mod ?L + n) mod ?L\<rparr>)"
    using Suc.IH[of ?st1] Suc.prems L by simp
  have m1: "\<And>i. ((?c + 1) mod ?L + i) mod ?L = (?c + Suc i) mod ?L"
    by (simp add: mod_add_left_eq)
  have up: "[0..<Suc n] = 0 # map Suc [0..<n]"
    by (simp add: upt_conv_Cons map_Suc_upt del: upt_Suc)
  have c0: "(?c + 0) mod ?L = ?c" using Suc.prems by simp
  show ?case
    unfolding next_n.simps g prod.case ih Let_def up m1
    using c0 by (simp add: comp_def del: upt_Suc)
qed

lemma map_of_sorted_nth:
  assumes ok: "workers_ok ws" and j: "j < length ws"
  shows "map_of ws (map key (sort_key upload_at (map snd ws)) ! j)
           = Some (sort_key upload_at (map snd ws) ! j)"
proof -
  let ?aw = "sort_key upload_at (map snd ws)"
  have "?aw ! j \<in> set ?aw" using j by (intro nth_mem) simp
  then have "?aw ! j \<in> snd ` set ws" by simp
  then obtain p where p: "p \<in> set ws" "snd p = ?aw ! j" by auto
  with ok have "key (?aw ! j) = fst p" by (auto simp: workers_ok_def)
  with p have "(key (?aw ! j), ?aw ! j) \<in> set ws" by (metis prod.collapse)
  with ok have "map_of ws (key (?aw ! j)) = Some (?aw ! j)"
    by (simp add: workers_ok_def)
  with j show ?thesis by simp
qed

lemma pool2_value:
  "pool2 =
      \<lparr>workers =
         [(''w1'', \<lparr>key = ''w1'', url = JStr ''http://h1'', upload_at = 100,
                    version = JStr ''unknown'', runner_by = JStr ''unknown''\<rparr>),
          (''w2'', \<lparr>key = ''w2'', url = JStr ''http://h2'', upload_at = 50,
                    version = JStr ''unknown'', runner_by = JStr ''unknown''\<rparr>)],
       sortedKeys = [''w2'', ''w1''], currentIndex = 0, firstSyncLogged = True\<rparr>"
  by (simp add: pool2_def scenario2_sync)

lemma pool2_next_value:
  "pool2_next =
      \<lparr>workers =
         [(''w1'', \<lparr>key = ''w1'', url = JStr ''http://h1'', upload_at = 100,
                    version = JStr ''unknown'', runner_by = JStr ''unknown''\<rparr>),
          (''w2'', \<lparr>key = ''w2'', url = JStr ''http://h2'', upload_at = 50,
                    version = JStr ''unknown'', runner_by = JStr ''unknown''\<rparr>)],
       sortedKeys = [''w2'', ''w1''], currentIndex = 1, firstSyncLogged = True\<rparr>"
  by (simp add: pool2_next_def pool2_value getNextWorker_def)

lemma pool2_reachable: "reachable pool2"
  unfolding pool2_def by (rule reachable.by_sync[OF reachable.initial])

lemma pool2_next_reachable: "reachable pool2_next"
  unfolding pool2_next_def by (rule reachable.by_next[OF pool2_reachable])

lemma poolABC_at_B_value:
  "poolABC_at_B =
     \<lparr>workers = [stored ''A'' ''http://a'' 1, stored ''B'' ''http://b'' 2, stored ''C'' ''http://c'' 3],
      sortedKeys = [''A'', ''B'', ''C''], currentIndex = 1, firstSyncLogged = True\<rparr>"
  by (simp add: poolABC_at_B_def snapshotABC_def entry_def stored_def sync_eval_defs getNextWorker_def)

lemma poolABC_at_B_reachable: "reachable poolABC_at_B"
  unfolding poolABC_at_B_def by (rule reachable.by_next[OF reachable.by_sync[OF reachable.initial]])

lemma sync_AC_value:
  "snd (syncFromObject dparse clock snapshotAC poolABC_at_B) =
     \<lparr>workers = [stored ''A'' ''http://a'' 1, stored ''C'' ''http://c'' 3],
      sortedKeys = [''A'', ''C''], currentIndex = 0, firstSyncLogged = True\<rparr>"
  by (simp add: poolABC_at_B_value snapshotAC_def entry_def stored_def sync_eval_defs)

lemma sync_BCD_value:
  "snd (syncFromObject dparse clock snapshotBCD poolABC_at_B) =
     \<lparr>workers = [stored ''B'' ''http://b'' 2, stored ''C'' ''http://c'' 3, stored ''D'' ''http://d'' 4],
      sortedKeys = [''B'', ''C'', ''D''], currentIndex = 0, firstSyncLogged = True\<rparr>"
  by (simp add: poolABC_at_B_value snapshotBCD_def entry_def stored_def sync_eval_defs)

lemma resort_cursor_key:
  assumes "nth_opt (sortedKeys s) (currentIndex s) = Some k" and "k \<noteq> []"
  shows "if k \<in> set (sortedKeys (resort s))
         then nth_opt (sortedKeys (resort s)) (currentIndex (resort s)) = Some k
         else currentIndex (resort s) = 0"
proof -
  let ?keys = "map key (sort_key upload_at (map snd (workers s)))"
  from assms(2) obtain c cs where k: "k = c # cs" by (cases k) auto
  have sk: "sortedKeys (resort s) = ?keys" by (rule resort_sortedKeys)
  show ?thesis
  proof (cases "k \<in> set ?keys")
    case True
    then have ne: "?keys \<noteq> []" by (metis empty_iff empty_set)
    from True have nn: "0 \<le> indexOf ?keys k" by (simp add: indexOf_nonneg_iff)
    have ci: "currentIndex (resort s) = nat (indexOf ?keys k)"
      using assms(1) ne nn unfolding resort_def Let_def k by simp
    from indexOf_nth[OF True] have "nth_opt ?keys (nat (indexOf ?keys k)) = Some k"
      by (simp add: nth_opt_def)
    with True show ?thesis by (simp only: sk ci if_True)
  next
    case False
    then have neg: "\<not> 0 \<le> indexOf ?keys k" by (simp add: indexOf_nonneg_iff)
    have "currentIndex (resort s) = 0"
      using assms(1) neg unfolding resort_def Let_def k by simp
    with False show ?thesis by (simp only: sk if_False)
  qed
qed

lemma resort_cursor_none:
  assumes "nth_opt (sortedKeys s) (currentIndex s) = None" and "currentIndex s = 0"
  shows "currentIndex (resort s) = 0"
  using assms unfolding resort_def Let_def by simp

lemma map_of_upsert_other:
  "k \<notin> fst ` set (filter (\<lambda>e. has_url (snd e)) es) \<Longrightarrow>
     map_of (upsert_workers dparse clock es ws) k = map_of ws k"
proof (induction es arbitrary: ws)
  case Nil
  then show ?case by simp
next
  case (Cons e es)
  obtain k' raw where e: "e = (k', raw)" by (cases e)
  from Cons.prems have rest: "k \<notin> fst ` set (filter (\<lambda>e. has_url (snd e)) es)"
    by (auto split: if_splits)
  show ?case
  proof (cases "has_url raw")
    case True
    with Cons.prems e have "k' \<noteq> k" by auto
    with True Cons.IH[OF rest] show ?thesis unfolding e by (simp add: update_conv')
  next
    case False
    with Cons.IH[OF rest] show ?thesis unfolding e by simp
  qed
qed

lemma map_of_upsert_hit:
  assumes "distinct (map fst es)" and "(k, raw) \<in> set es" and "has_url raw"
  shows "map_of (upsert_workers dparse clock es ws) k = Some (record_of dparse (clock k) k raw)"
  using assms
proof (induction es arbitrary: ws)
  case Nil
  then show ?case by simp
next
  case (Cons e es)
  obtain k' raw' where e: "e = (k', raw')" by (cases e)
  show ?case
  proof (cases "k' = k")
    case True
    with Cons.prems e have nk: "k \<notin> fst ` set es" by auto
    with Cons.prems e True have raw': "raw' = raw" by (auto simp: image_iff)
    from nk have "k \<notin> fst ` set (filter (\<lambda>e. has_url (snd e)) es)" by auto
    then have "map_of (upsert_workers dparse clock es
                  (AList.update k (record_of dparse (clock k) k raw) ws)) k
               = map_of (AList.update k (record_of dparse (clock k) k raw) ws) k"
      by (rule map_of_upsert_other)
    with True raw' Cons.prems(3) show ?thesis unfolding e by (simp add: update_conv')
  next
    case False
    with Cons.prems e have "(k, raw) \<in> set es" "distinct (map fst es)" by auto
    with Cons.IH Cons.prems(3) show ?thesis unfolding e by simp
  qed
qed

lemma keys_upsert:
  "fst ` set (upsert_workers dparse clock es ws) \<subseteq> fst ` set ws \<union> fst ` set es"
proof (induction es arbitrary: ws)
  case Nil
  then show ?case by simp
next
  case (Cons e es)
  obtain k raw where e: "e = (k, raw)" by (cases e)
  show ?case unfolding e using Cons.IH[of "AList.update k (record_of dparse (clock k) k raw) ws"]
      Cons.IH[of ws]
    by (auto simp: dom_update)
qed

lemma map_of_filter_keys:
  "map_of (filter (\<lambda>p. fst p \<in> A) ws) k = (if k \<in> A then map_of ws k else None)"
  by (induction ws) auto

lemma sync_workers:
  "workers (snd (syncFromObject dparse clock inc st)) =
     upsert_workers dparse clock inc (filter (\<lambda>p. fst p \<in> fst ` set inc) (workers st))"
  by (simp add: sync_state)

lemma sync_no_url_value:
  "snd (syncFromObject dparse clock scenario2_w1_no_url pool2) = pool2"
  by (simp add: pool2_value scenario2_w1_no_url_def entry_def sync_eval_defs)

lemma sync_logged [simp]: "firstSyncLogged (snd (syncFromObject dparse clock inc st)) = True"
  by (simp add: sync_state)

lemma snapshotComparableMap_keys: "map_has (snapshotComparableMap st) k = (k \<in> fst ` set (workers st))"
proof -
  have "map fst (snapshotComparableMap st) = map fst (workers st)"
    by (simp add: snapshotComparableMap_def comp_def case_prod_beta)
  then show ?thesis by (simp add: map_has_def)
qed

lemma handle_request_other:
  assumes "req_url req \<noteq> ''/health''" and "req_url req \<noteq> ''/health/''"
    and "req_url req \<noteq> ''/nginx-health''" and "req_url req \<noteq> ''/nginx-health/''"
  shows "handle_request fmt uuid req st =
           (case fst (getNextWorker st) of
              None \<Rightarrow> Respond 503 (ErrorBody ''Service Unavailable'' message_503
                                      (request_id_of uuid req))
            | Some w \<Rightarrow> ProxyWeb (url w) (request_id_of uuid req) (key w) (version w),
            snd (getNextWorker st))"
  using assms
  by (simp add: handle_request_def Let_def split: prod.split option.split)

lemma getNextWorker_empty:
  assumes "reachable st" and "pool_size st = 0"
  shows "getNextWorker st = (None, st)"
proof -
  have "length (sortedKeys st) = length (workers st)"
    using pool_inv_sorted[OF reachable_inv[OF assms(1)]] by simp
  with assms(2) have "sortedKeys st = []" by (simp add: pool_size_def)
  then show ?thesis by (simp add: getNextWorker_def)
qed

lemma getNextWorker_nonempty:
  assumes "reachable st" and "pool_size st \<noteq> 0"
  shows "\<exists>w. map_of (workers st) (sortedKeys st ! currentIndex st) = Some w
             \<and> getNextWorker st =
                 (Some w, st\<lparr>currentIndex := (currentIndex st + 1) mod length (sortedKeys st)\<rparr>)"
proof -
  have inv: "pool_inv st" using assms(1) by (rule reachable_inv)
  have len: "length (sortedKeys st) = length (workers st)"
    using pool_inv_sorted[OF inv] by simp
  with assms(2) have ne: "sortedKeys st \<noteq> []" by (auto simp: pool_size_def)
  then have ci: "currentIndex st < length (sortedKeys st)" using inv by (simp add: pool_inv_cursor)
  then have "sortedKeys st ! currentIndex st \<in> fst ` set (workers st)"
    using pool_inv_set_keys[OF inv] nth_mem by blast
  then obtain w where w: "map_of (workers st) (sortedKeys st ! currentIndex st) = Some w"
    by (metis map_of_eq_None_iff not_Some_eq)
  with ne ci have "getNextWorker st =
      (Some w, st\<lparr>currentIndex := (currentIndex st + 1) mod length (sortedKeys st)\<rparr>)"
    by (simp add: getNextWorker_def Let_def nth_opt_def)
  with w show ?thesis by blast
qed

lemma health_frame:
  assumes "req_url req \<in> {''/health'', ''/health/'', ''/nginx-health'', ''/nginx-health/''}"
  shows "snd (handle_request fmt uuid req st) = st"
  using assms by (auto simp: handle_request_def split: sum.split)

lemma health_entries_in_range:
  assumes "\<forall>w \<in> set ws. \<bar>upload_at w\<bar> \<le> 8640000000000000"
  shows "\<exists>es. health_entries fmt ws = Inr es
              \<and> map he_key es = map key ws \<and> map he_url es = map url ws
              \<and> map he_version es = map version ws"
  using assms
proof (induction ws)
  case Nil
  then show ?case by simp
next
  case (Cons w ws)
  then obtain es where es: "health_entries fmt ws = Inr es" "map he_key es = map key ws"
      "map he_url es = map url ws" "map he_version es = map version ws" by auto
  from Cons.prems have "time_clip (upload_at w) \<noteq> None" by (simp add: time_clip_def)
  then obtain t where "time_clip (upload_at w) = Some t" by auto
  with es show ?case by (simp add: toISOString_def)
qed

lemma health_report_in_range:
  assumes "req_url req \<in> {''/health'', ''/health/'', ''/nginx-health'', ''/nginx-health/''}"
    and "\<forall>p \<in> set (workers st). \<bar>upload_at (snd p)\<bar> \<le> 8640000000000000"
  shows "\<exists>es. handle_request fmt uuid req st = (Respond 200 (HealthBody ''ok'' es (pool_size st)), st)
              \<and> map he_key es = map key (getAllWorkers st)
              \<and> map he_url es = map url (getAllWorkers st)
              \<and> map he_version es = map version (getAllWorkers st)
              \<and> sorted (map upload_at (getAllWorkers st))"
proof -
  have "\<forall>w \<in> set (getAllWorkers st). \<bar>upload_at w\<bar> \<le> 8640000000000000"
    using assms(2) by (auto simp: getAllWorkers_def)
  from health_entries_in_range[OF this, of fmt] obtain es where
    es: "health_entries fmt (getAllWorkers st) = Inr es" "map he_key es = map key (getAllWorkers st)"
      "map he_url es = map url (getAllWorkers st)"
      "map he_version es = map version (getAllWorkers st)" by blast
  have "sorted (map upload_at (getAllWorkers st))" by (simp add: getAllWorkers_def sorted_sort_key)
  with es assms(1) show ?thesis by (auto simp: handle_request_def)
qed

text \<open>
  Identity matters for a url that is an object. Delivered again in a new object graph,
  the entry is stored with the new reference and reported as updated, although nothing
  in its contents changed; the same object passed twice is not.
\<close>

lemma fresh_object_url_reported:
  "fst (syncFromObject dparse clock2 snapshot_object_url_again
         (snd (syncFromObject dparse clock1 snapshot_object_url new_pool)))
     = \<lparr>added = [], removed = [], updated = [''w1'']\<rparr>"
  by (simp add: snapshot_object_url_def snapshot_object_url_again_def sync_eval_defs)

lemma same_object_url_not_reported:
  "fst (syncFromObject dparse clock2 snapshot_object_url
         (snd (syncFromObject dparse clock1 snapshot_object_url new_pool)))
     = empty_diff"
  by (simp add: snapshot_object_url_def empty_diff_def sync_eval_defs)

section \<open>Properties\<close>

text \<open>
  C1 (as amended). After a reconcile from a reachable state whose cursor does not stand
  on an empty-string key: the new sequence has no duplicates; if the key under the cursor
  before the reconcile is still in the recomputed sequence, the cursor stands on that key
  at its new position; if that key is gone, the cursor is 0, whether or not the old index
  would still be in range; and if there was no key under the cursor (the sequence was
  empty), the cursor is 0. The stability scenario is the witness: with \<^verbatim>\<open>[A, B, C]\<close>
  and the cursor on \<^verbatim>\<open>B\<close>, a snapshot that drops \<^verbatim>\<open>A\<close> and adds \<^verbatim>\<open>D\<close> leaves
  the cursor on \<^verbatim>\<open>B\<close>, now at position 0.
\<close>

theorem reconcile_cursor:
  assumes "reachable st"
    and "nth_opt (sortedKeys st) (currentIndex st) \<noteq> Some []"
    and "st' = snd (syncFromObject dparse clock incoming st)"
  shows "distinct (sortedKeys st')
         \<and> (case nth_opt (sortedKeys st) (currentIndex st) of
              None \<Rightarrow> currentIndex st' = 0
            | Some k \<Rightarrow>
                if k \<in> set (sortedKeys st')
                then nth_opt (sortedKeys st') (currentIndex st') = Some k
                else currentIndex st' = 0)"
proof -
  let ?s = "st\<lparr>workers := upsert_workers dparse clock incoming
                     (filter (\<lambda>p. fst p \<in> fst ` set incoming) (workers st))\<rparr>"
  have st': "st' = (resort ?s)\<lparr>firstSyncLogged := True\<rparr>"
    using assms(3) by (simp only: sync_state)
  have inv: "pool_inv st" using assms(1) by (rule reachable_inv)
  have "pool_inv st'" unfolding assms(3) using inv by (rule sync_inv)
  then have d: "distinct (sortedKeys st')" by (rule pool_inv_distinct_keys)
  have f: "sortedKeys st' = sortedKeys (resort ?s)" "currentIndex st' = currentIndex (resort ?s)"
    by (simp_all add: st')
  show ?thesis
  proof (cases "nth_opt (sortedKeys st) (currentIndex st)")
    case None
    then have "sortedKeys st = []" using pool_inv_cursor[OF inv]
      by (auto simp: nth_opt_def split: if_splits)
    then have "currentIndex st = 0" using inv by (simp add: pool_inv_cursor0)
    with None have "currentIndex (resort ?s) = 0" by (intro resort_cursor_none) simp_all
    with None d show ?thesis by (simp add: f)
  next
    case (Some k)
    with assms(2) have "k \<noteq> []" by simp
    with Some have "if k \<in> set (sortedKeys (resort ?s))
         then nth_opt (sortedKeys (resort ?s)) (currentIndex (resort ?s)) = Some k
         else currentIndex (resort ?s) = 0"
      by (intro resort_cursor_key) simp_all
    with Some d show ?thesis by (simp only: f option.case)
  qed
qed

theorem reconcile_cursor_witness:
  "reachable poolABC_at_B
   \<and> sortedKeys poolABC_at_B = [''A'', ''B'', ''C'']
   \<and> nth_opt (sortedKeys poolABC_at_B) (currentIndex poolABC_at_B) = Some ''B''
   \<and> sortedKeys (snd (syncFromObject (\<lambda>s. None) (\<lambda>k. 0) snapshotBCD poolABC_at_B)) = [''B'', ''C'', ''D'']
   \<and> nth_opt (sortedKeys (snd (syncFromObject (\<lambda>s. None) (\<lambda>k. 0) snapshotBCD poolABC_at_B)))
        (currentIndex (snd (syncFromObject (\<lambda>s. None) (\<lambda>k. 0) snapshotBCD poolABC_at_B))) = Some ''B''"
proof -
  have k: "nth_opt (sortedKeys poolABC_at_B) (currentIndex poolABC_at_B) = Some ''B''"
    by (simp add: poolABC_at_B_value nth_opt_def)
  then have ne: "nth_opt (sortedKeys poolABC_at_B) (currentIndex poolABC_at_B) \<noteq> Some []" by simp
  have sk: "sortedKeys (snd (syncFromObject (\<lambda>s. None) (\<lambda>k. 0) snapshotBCD poolABC_at_B)) = [''B'', ''C'', ''D'']"
    by (simp add: sync_BCD_value)
  from reconcile_cursor[OF poolABC_at_B_reachable ne refl, of "\<lambda>s. None" "\<lambda>k. 0" snapshotBCD] k sk
  have "nth_opt (sortedKeys (snd (syncFromObject (\<lambda>s. None) (\<lambda>k. 0) snapshotBCD poolABC_at_B)))
        (currentIndex (snd (syncFromObject (\<lambda>s. None) (\<lambda>k. 0) snapshotBCD poolABC_at_B))) = Some ''B''"
    by simp
  with poolABC_at_B_reachable k sk show ?thesis by (simp add: poolABC_at_B_value)
qed

text \<open>
  Counterexample to C1 as stated, which lets the cursor keep an old index that is still in
  range when its key has gone. With \<^verbatim>\<open>[A, B, C]\<close> and the cursor on \<^verbatim>\<open>B\<close> (index 1), a snapshot
  without \<^verbatim>\<open>B\<close> gives \<^verbatim>\<open>[A, C]\<close>, where index 1 is in range, and the cursor is 0.
\<close>

theorem reconcile_cursor_counterexample:
  "reachable poolABC_at_B
   \<and> currentIndex poolABC_at_B = 1
   \<and> nth_opt (sortedKeys poolABC_at_B) (currentIndex poolABC_at_B) = Some ''B''
   \<and> sortedKeys (snd (syncFromObject (\<lambda>s. None) (\<lambda>k. 0) snapshotAC poolABC_at_B)) = [''A'', ''C'']
   \<and> currentIndex poolABC_at_B
       < length (sortedKeys (snd (syncFromObject (\<lambda>s. None) (\<lambda>k. 0) snapshotAC poolABC_at_B)))
   \<and> currentIndex (snd (syncFromObject (\<lambda>s. None) (\<lambda>k. 0) snapshotAC poolABC_at_B)) = 0
   \<and> currentIndex (snd (syncFromObject (\<lambda>s. None) (\<lambda>k. 0) snapshotAC poolABC_at_B))
       \<noteq> currentIndex poolABC_at_B"
  using poolABC_at_B_reachable
  by (simp add: sync_AC_value) (simp add: poolABC_at_B_value nth_opt_def)

text \<open>
  C2 (as amended). In every state the pool can reach, whatever sequence of reconcile
  inputs and dispatches led to it, and in the state after any further reconcile, each key
  of the ordered sequence has a record whose url is truthy, hence neither empty nor
  missing, and so has every record of the registry. An entry of a reconcile input whose
  url is missing or empty (the raw value or its \<^verbatim>\<open>url\<close> is falsy) is skipped: the
  registry holds under that key after the reconcile exactly what it held before, so the
  key is never added by such an entry, and a record previously stored under it is kept
  unchanged.
\<close>

theorem invalid_url_skipped:
  assumes "reachable st"
  shows "(\<forall>k' \<in> set (sortedKeys st).
            \<exists>w. map_of (workers st) k' = Some w \<and> truthy (url w)
                 \<and> url w \<noteq> JStr [] \<and> url w \<noteq> JUndefined)
         \<and> (\<forall>p \<in> set (workers st). truthy (url (snd p)))
         \<and> (\<forall>k' \<in> set (sortedKeys (snd (syncFromObject dparse clock incoming st))).
            \<exists>w. map_of (workers (snd (syncFromObject dparse clock incoming st))) k' = Some w
                 \<and> truthy (url w) \<and> url w \<noteq> JStr [] \<and> url w \<noteq> JUndefined)
         \<and> (\<forall>k raw. distinct (map fst incoming) \<and> (k, raw) \<in> set incoming
                      \<and> \<not> (truthy raw \<and> truthy (js_get raw ''url''))
               \<longrightarrow> map_of (workers (snd (syncFromObject dparse clock incoming st))) k
                     = map_of (workers st) k)"
proof -
  let ?st' = "snd (syncFromObject dparse clock incoming st)"
  have valid: "\<forall>k' \<in> set (sortedKeys s).
            \<exists>w. map_of (workers s) k' = Some w \<and> truthy (url w)
                 \<and> url w \<noteq> JStr [] \<and> url w \<noteq> JUndefined"
    if r: "reachable s" for s
  proof
    fix k'
    assume k': "k' \<in> set (sortedKeys s)"
    have inv: "pool_inv s" using r by (rule reachable_inv)
    have ok: "workers_ok (workers s)" using inv by (rule pool_inv_workers_ok)
    from k' have "k' \<in> fst ` set (workers s)" using pool_inv_set_keys[OF inv] by simp
    then obtain w where w: "map_of (workers s) k' = Some w"
      by (metis map_of_eq_None_iff not_Some_eq)
    then have "(k', w) \<in> set (workers s)" by (rule map_of_SomeD)
    with ok have t: "truthy (url w)" by (auto simp: workers_ok_def)
    then have "url w \<noteq> JStr [] \<and> url w \<noteq> JUndefined" by auto
    with w t show "\<exists>w. map_of (workers s) k' = Some w \<and> truthy (url w)
                 \<and> url w \<noteq> JStr [] \<and> url w \<noteq> JUndefined" by simp
  qed
  have a: "\<forall>k' \<in> set (sortedKeys st).
            \<exists>w. map_of (workers st) k' = Some w \<and> truthy (url w)
                 \<and> url w \<noteq> JStr [] \<and> url w \<noteq> JUndefined"
    using assms by (rule valid)
  have b: "\<forall>p \<in> set (workers st). truthy (url (snd p))"
    using pool_inv_workers_ok[OF reachable_inv[OF assms]] by (simp add: workers_ok_def)
  have c: "\<forall>k' \<in> set (sortedKeys ?st').
            \<exists>w. map_of (workers ?st') k' = Some w \<and> truthy (url w)
                 \<and> url w \<noteq> JStr [] \<and> url w \<noteq> JUndefined"
    using reachable.by_sync[OF assms] by (rule valid)
  have d: "map_of (workers ?st') k = map_of (workers st) k"
    if dist: "distinct (map fst incoming)" and mem: "(k, raw) \<in> set incoming"
      and bad: "\<not> (truthy raw \<and> truthy (js_get raw ''url''))" for k raw
  proof -
    have "k \<notin> fst ` set (filter (\<lambda>e. has_url (snd e)) incoming)"
    proof
      assume "k \<in> fst ` set (filter (\<lambda>e. has_url (snd e)) incoming)"
      then obtain raw' where r': "(k, raw') \<in> set incoming" "has_url raw'" by auto
      with dist mem have "raw' = raw" by (meson eq_key_imp_eq_value)
      with r' bad show False by (simp add: has_url_def)
    qed
    then have "map_of (workers ?st') k
                 = map_of (filter (\<lambda>p. fst p \<in> fst ` set incoming) (workers st)) k"
      unfolding sync_workers by (rule map_of_upsert_other)
    also have "\<dots> = map_of (workers st) k"
    proof -
      have "k \<in> fst ` set incoming" using mem by force
      then show ?thesis by (simp only: map_of_filter_keys if_True)
    qed
    finally show ?thesis .
  qed
  from a b c d show ?thesis by blast
qed

text \<open>
  The witness: validity after the reconcile of scenario 2 and after a dispatch that
  follows it, and the skip when scenario 2 comes again with the url of \<^verbatim>\<open>w1\<close> empty.
\<close>

theorem invalid_url_skipped_witness:
  "reachable pool2 \<and> reachable pool2_next
   \<and> sortedKeys pool2 = [''w2'', ''w1''] \<and> sortedKeys pool2_next = [''w2'', ''w1'']
   \<and> (\<exists>w. map_of (workers pool2) ''w2'' = Some w \<and> truthy (url w) \<and> url w \<noteq> JStr [])
   \<and> (\<exists>w. map_of (workers pool2) ''w1'' = Some w \<and> truthy (url w) \<and> url w \<noteq> JStr [])
   \<and> (\<exists>w. map_of (workers pool2_next) ''w2'' = Some w \<and> truthy (url w) \<and> url w \<noteq> JStr [])
   \<and> (\<exists>w. map_of (workers pool2_next) ''w1'' = Some w \<and> truthy (url w) \<and> url w \<noteq> JStr [])
   \<and> distinct (map fst scenario2_w1_no_url)
   \<and> (''w1'', JObj 31 [(''url'', JStr []), (''upload_at'', JNum 100)]) \<in> set scenario2_w1_no_url
   \<and> \<not> (truthy (JObj 31 [(''url'', JStr []), (''upload_at'', JNum 100)])
         \<and> truthy (js_get (JObj 31 [(''url'', JStr []), (''upload_at'', JNum 100)]) ''url''))
   \<and> map_of (workers (snd (syncFromObject (\<lambda>s. None) (\<lambda>k. 0) scenario2_w1_no_url pool2))) ''w1''
       = map_of (workers pool2) ''w1''
   \<and> sortedKeys (snd (syncFromObject (\<lambda>s. None) (\<lambda>k. 0) scenario2_w1_no_url pool2)) = [''w2'', ''w1'']"
proof -
  have s2: "sortedKeys pool2 = [''w2'', ''w1'']" by (simp add: pool2_value)
  have s3: "sortedKeys pool2_next = [''w2'', ''w1'']" by (simp add: pool2_next_value)
  have d: "distinct (map fst scenario2_w1_no_url)" by (simp add: scenario2_w1_no_url_def)
  have m: "(''w1'', JObj 31 [(''url'', JStr []), (''upload_at'', JNum 100)]) \<in> set scenario2_w1_no_url"
    by (simp add: scenario2_w1_no_url_def)
  have u: "\<not> (truthy (JObj 31 [(''url'', JStr []), (''upload_at'', JNum 100)])
         \<and> truthy (js_get (JObj 31 [(''url'', JStr []), (''upload_at'', JNum 100)]) ''url''))"
    by simp
  note t2 = invalid_url_skipped[OF pool2_reachable, of "\<lambda>s. None" "\<lambda>k. 0" scenario2_w1_no_url]
  note t3 = invalid_url_skipped[OF pool2_next_reachable, of "\<lambda>s. None" "\<lambda>k. 0" scenario2_w1_no_url]
  from t2 have v2: "\<forall>k' \<in> set (sortedKeys pool2).
            \<exists>w. map_of (workers pool2) k' = Some w \<and> truthy (url w)
                 \<and> url w \<noteq> JStr [] \<and> url w \<noteq> JUndefined" by (rule conjunct1)
  from t3 have v3: "\<forall>k' \<in> set (sortedKeys pool2_next).
            \<exists>w. map_of (workers pool2_next) k' = Some w \<and> truthy (url w)
                 \<and> url w \<noteq> JStr [] \<and> url w \<noteq> JUndefined" by (rule conjunct1)
  from v2 have a2: "\<exists>w. map_of (workers pool2) ''w2'' = Some w \<and> truthy (url w) \<and> url w \<noteq> JStr []"
    and a1: "\<exists>w. map_of (workers pool2) ''w1'' = Some w \<and> truthy (url w) \<and> url w \<noteq> JStr []"
    unfolding s2 by auto
  from v3 have b2: "\<exists>w. map_of (workers pool2_next) ''w2'' = Some w \<and> truthy (url w) \<and> url w \<noteq> JStr []"
    and b1: "\<exists>w. map_of (workers pool2_next) ''w1'' = Some w \<and> truthy (url w) \<and> url w \<noteq> JStr []"
    unfolding s3 by auto
  from t2 d m u
  have k: "map_of (workers (snd (syncFromObject (\<lambda>s. None) (\<lambda>k. 0) scenario2_w1_no_url pool2))) ''w1''
       = map_of (workers pool2) ''w1''" by blast
  have sk: "sortedKeys (snd (syncFromObject (\<lambda>s. None) (\<lambda>k. 0) scenario2_w1_no_url pool2)) = [''w2'', ''w1'']"
    by (simp add: sync_no_url_value) (simp add: pool2_value)
  from pool2_reachable pool2_next_reachable s2 s3 a2 a1 b2 b1 d m u k sk
  show ?thesis by (intro conjI)
qed

text \<open>
  Counterexample to C2 as stated, which has the earlier record removed. After scenario 2, a snapshot that
  still lists \<^verbatim>\<open>w1\<close> but with an empty url leaves \<^verbatim>\<open>w1\<close> in the registry and in the
  ordered sequence, with its earlier url, and reports nothing removed.
\<close>

theorem invalid_url_removed_counterexample:
  "reachable pool2
   \<and> map_of (workers pool2) ''w1'' = Some (snd (stored ''w1'' ''http://h1'' 100))
   \<and> map_of scenario2_w1_no_url ''w1'' = Some (JObj 31 [(''url'', JStr []), (''upload_at'', JNum 100)])
   \<and> map_of (workers (snd (syncFromObject (\<lambda>s. None) (\<lambda>k. 0) scenario2_w1_no_url pool2))) ''w1''
       = Some (snd (stored ''w1'' ''http://h1'' 100))
   \<and> ''w1'' \<in> set (sortedKeys (snd (syncFromObject (\<lambda>s. None) (\<lambda>k. 0) scenario2_w1_no_url pool2)))
   \<and> removed (fst (syncFromObject (\<lambda>s. None) (\<lambda>k. 0) scenario2_w1_no_url pool2)) = []"
  using pool2_reachable
  by (simp add: sync_no_url_value)
     (simp add: pool2_value scenario2_w1_no_url_def entry_def stored_def sync_eval_defs)

text \<open>
  C3 (as amended). Reconcile is idempotent for a snapshot that is delivered a second
  time, as the same object or as a new object graph with the same keys in the same order,
  whenever each entry is usable in both deliveries or in neither and every usable entry
  yields the same stored fields both times: the same normalised timestamp (so when the
  raw \<^verbatim>\<open>upload_at\<close> is a finite number or a text the date parser accepts, or when the
  clock reads the same at both calls) and a url, version and runner label that are equal
  under \<^verbatim>\<open>===\<close> (equal primitive values, or the very same object). From a reachable
  state, the second reconcile then reports no added, removed or changed key and leaves
  the pool, so the ordered sequence and the cursor, exactly as the first call left it.
\<close>

theorem reconcile_idempotent:
  assumes "reachable st"
    and "distinct (map fst incoming)"
    and "list_all2 (redelivered dparse clock1 clock2) incoming again"
    and "st1 = snd (syncFromObject dparse clock1 incoming st)"
  shows "syncFromObject dparse clock2 again st1 = (empty_diff, st1)"
proof -
  have inv: "pool_inv st1"
    unfolding assms(4) using reachable_inv[OF assms(1)] by (rule sync_inv)
  have w1: "workers st1 = upsert_workers dparse clock1 incoming
              (filter (\<lambda>p. fst p \<in> fst ` set incoming) (workers st))"
    unfolding assms(4) by (rule sync_workers)
  have keys: "map fst again = map fst incoming"
    using assms(3) by (induction rule: list_all2_induct) (simp_all add: redelivered_def)
  have "fst ` set (filter (\<lambda>p. fst p \<in> fst ` set incoming) (workers st)) \<subseteq> fst ` set incoming"
    by auto
  then have "fst ` set (workers st1) \<subseteq> fst ` set incoming"
    unfolding w1 using keys_upsert[of dparse clock1 incoming
        "filter (\<lambda>p. fst p \<in> fst ` set incoming) (workers st)"]
    by blast
  then have "set (map fst (workers st1)) \<subseteq> set (map fst again)" by (simp add: keys)
  then have rm: "remove_missing (map fst again) (map fst (workers st1)) ([], st1) = ([], st1)"
    by (rule remove_missing_noop)
  have hit: "has_url (snd e2) \<longrightarrow>
             map_has (snapshotComparableMap st1) (fst e2) \<and>
             map_of (workers st1) (fst e2) = Some (record_of dparse (clock2 (fst e2)) (fst e2) (snd e2))"
    if e2: "e2 \<in> set again" for e2
  proof
    assume h2: "has_url (snd e2)"
    from e2 obtain i where i: "i < length again" "again ! i = e2"
      by (auto simp: in_set_conv_nth)
    have len: "length incoming = length again" using assms(3) by (rule list_all2_lengthD)
    define e1 where "e1 = incoming ! i"
    have e1: "e1 \<in> set incoming" using i len by (simp add: e1_def)
    have rd: "redelivered dparse clock1 clock2 e1 e2"
      using list_all2_nthD2[OF assms(3) i(1)] i(2) by (simp add: e1_def)
    from rd have k: "fst e2 = fst e1" and hh: "has_url (snd e2) = has_url (snd e1)"
      by (simp_all add: redelivered_def)
    from hh h2 have h1: "has_url (snd e1)" by simp
    from rd h1 have same: "record_of dparse (clock2 (fst e1)) (fst e1) (snd e2)
                           = record_of dparse (clock1 (fst e1)) (fst e1) (snd e1)"
      by (simp add: redelivered_def record_of_def)
    from e1 have "(fst e1, snd e1) \<in> set incoming" by simp
    with assms(2) h1 have m: "map_of (workers st1) (fst e1)
                        = Some (record_of dparse (clock1 (fst e1)) (fst e1) (snd e1))"
      unfolding w1 by (intro map_of_upsert_hit)
    then have "fst e1 \<in> fst ` set (workers st1)"
      by (metis map_of_eq_None_iff option.distinct(1))
    with m same k show "map_has (snapshotComparableMap st1) (fst e2) \<and>
             map_of (workers st1) (fst e2) = Some (record_of dparse (clock2 (fst e2)) (fst e2) (snd e2))"
      by (simp add: snapshotComparableMap_keys)
  qed
  then have up: "upsert_all dparse clock2 (snapshotComparableMap st1) again ([], [], st1)
                  = ([], [], st1)"
    by (intro upsert_all_noop) blast
  have lg: "firstSyncLogged st1 = True" unfolding assms(4) by (rule sync_logged)
  have "resort st1\<lparr>firstSyncLogged := True\<rparr> = st1"
    using resort_id[OF inv] lg by simp
  then show ?thesis
    unfolding syncFromObject_def Let_def rm prod.case up empty_diff_def by simp
qed

text \<open>
  The witness: scenario 2 reconciled at time 1000, and delivered again as a new object
  graph at time 2000.
\<close>

theorem reconcile_idempotent_witness:
  "reachable new_pool \<and> distinct (map fst scenario2)
   \<and> scenario2_again \<noteq> scenario2
   \<and> sortedKeys (snd (syncFromObject (\<lambda>s. None) (\<lambda>k. 1000) scenario2 new_pool)) = [''w2'', ''w1'']
   \<and> currentIndex (snd (syncFromObject (\<lambda>s. None) (\<lambda>k. 1000) scenario2 new_pool)) = 0
   \<and> syncFromObject (\<lambda>s. None) (\<lambda>k. 2000) scenario2_again
        (snd (syncFromObject (\<lambda>s. None) (\<lambda>k. 1000) scenario2 new_pool))
       = (empty_diff, snd (syncFromObject (\<lambda>s. None) (\<lambda>k. 1000) scenario2 new_pool))
   \<and> syncFromObject (\<lambda>s. None) (\<lambda>k. 2000) scenario2
        (snd (syncFromObject (\<lambda>s. None) (\<lambda>k. 1000) scenario2 new_pool))
       = (empty_diff, snd (syncFromObject (\<lambda>s. None) (\<lambda>k. 1000) scenario2 new_pool))"
proof -
  have d: "distinct (map fst scenario2)" by (simp add: scenario2_def)
  have ne: "scenario2_again \<noteq> scenario2" by (simp add: scenario2_def scenario2_again_def)
  have n: "list_all2 (redelivered (\<lambda>s. None) (\<lambda>k. 1000) (\<lambda>k. 2000)) scenario2 scenario2_again"
    by (simp add: scenario2_def scenario2_again_def redelivered_def has_url_def)
  have n': "list_all2 (redelivered (\<lambda>s. None) (\<lambda>k. 1000) (\<lambda>k. 2000)) scenario2 scenario2"
    by (simp add: scenario2_def redelivered_def has_url_def)
  from reconcile_idempotent[OF reachable.initial d n refl]
    reconcile_idempotent[OF reachable.initial d n' refl] reachable.initial d ne
  show ?thesis by (simp add: scenario2_sync)
qed

text \<open>
  Counterexample to C3 as stated, which covers timestamps that fall back to the clock. With \<^verbatim>\<open>w1\<close>
  carrying the placeholder and \<^verbatim>\<open>w2\<close> uploaded at 1500, a first reconcile at time 1000
  orders \<^verbatim>\<open>[w1, w2]\<close>; the same snapshot at time 2000 reports \<^verbatim>\<open>w1\<close> as changed,
  orders \<^verbatim>\<open>[w2, w1]\<close> and moves the cursor from 0 to 1. (A url that is an object is
  likewise reported as changed when the snapshot arrives as a new object graph: lemma
  \<open>fresh_object_url_reported\<close>.)
\<close>

theorem reconcile_idempotent_counterexample:
  "distinct (map fst snapshot_pending)
   \<and> sortedKeys (snd (syncFromObject (\<lambda>s. None) (\<lambda>k. 1000) snapshot_pending new_pool))
       = [''w1'', ''w2'']
   \<and> currentIndex (snd (syncFromObject (\<lambda>s. None) (\<lambda>k. 1000) snapshot_pending new_pool)) = 0
   \<and> fst (syncFromObject (\<lambda>s. None) (\<lambda>k. 2000) snapshot_pending
        (snd (syncFromObject (\<lambda>s. None) (\<lambda>k. 1000) snapshot_pending new_pool)))
       = \<lparr>added = [], removed = [], updated = [''w1'']\<rparr>
   \<and> sortedKeys (snd (syncFromObject (\<lambda>s. None) (\<lambda>k. 2000) snapshot_pending
        (snd (syncFromObject (\<lambda>s. None) (\<lambda>k. 1000) snapshot_pending new_pool))))
       = [''w2'', ''w1'']
   \<and> currentIndex (snd (syncFromObject (\<lambda>s. None) (\<lambda>k. 2000) snapshot_pending
        (snd (syncFromObject (\<lambda>s. None) (\<lambda>k. 1000) snapshot_pending new_pool)))) = 1"
proof -
  have first: "snd (syncFromObject (\<lambda>s. None) (\<lambda>k. 1000) snapshot_pending new_pool) =
      \<lparr>workers = [stored ''w1'' ''http://h1'' 1000, stored ''w2'' ''http://h2'' 1500],
       sortedKeys = [''w1'', ''w2''], currentIndex = 0, firstSyncLogged = True\<rparr>"
    by (simp add: snapshot_pending_def entry_def stored_def sync_eval_defs)
  have second: "syncFromObject (\<lambda>s. None) (\<lambda>k. 2000) snapshot_pending
      \<lparr>workers = [stored ''w1'' ''http://h1'' 1000, stored ''w2'' ''http://h2'' 1500],
       sortedKeys = [''w1'', ''w2''], currentIndex = 0, firstSyncLogged = True\<rparr> =
      (\<lparr>added = [], removed = [], updated = [''w1'']\<rparr>,
       \<lparr>workers = [stored ''w1'' ''http://h1'' 2000, stored ''w2'' ''http://h2'' 1500],
        sortedKeys = [''w2'', ''w1''], currentIndex = 1, firstSyncLogged = True\<rparr>)"
    by (simp add: snapshot_pending_def entry_def stored_def sync_eval_defs)
  show ?thesis unfolding first second by (simp add: snapshot_pending_def)
qed

text \<open>
  C4 (as amended). Fairness: from a reachable state with \<open>N > 0\<close> records, \<open>N\<close>
  successive calls of \<^verbatim>\<open>getNextWorker\<close> return the records of the ascending
  \<^verbatim>\<open>upload_at\<close> order rotated to start at the cursor, so each key exactly once, and
  leave the pool as it was; the order is the ascending one itself when the cursor is 0.
\<close>

theorem fairness_rotation:
  assumes "reachable st" and "0 < pool_size st"
  shows "fst (next_n (pool_size st) st) = map Some (rotate (currentIndex st) (getAllWorkers st))
         \<and> snd (next_n (pool_size st) st) = st
         \<and> sorted (map upload_at (getAllWorkers st))
         \<and> distinct (map key (getAllWorkers st))
         \<and> set (map key (getAllWorkers st)) = fst ` set (workers st)
         \<and> length (getAllWorkers st) = pool_size st"
proof -
  let ?N = "pool_size st"
  let ?aw = "getAllWorkers st"
  let ?c = "currentIndex st"
  have inv: "pool_inv st" using assms(1) by (rule reachable_inv)
  have ok: "workers_ok (workers st)" using inv by (rule pool_inv_workers_ok)
  have sk: "sortedKeys st = map key ?aw"
    using pool_inv_sorted[OF inv] by (simp add: getAllWorkers_def)
  have len: "length (sortedKeys st) = ?N" "length ?aw = ?N"
    by (simp_all add: sk getAllWorkers_def pool_size_def)
  have ne: "sortedKeys st \<noteq> []" using len assms(2) by auto
  have c: "?c < length (sortedKeys st)" using inv ne by (rule pool_inv_cursor)
  have run: "next_n ?N st =
           (map (\<lambda>i. map_of (workers st) (sortedKeys st ! ((?c + i) mod ?N))) [0..<?N],
            st\<lparr>currentIndex := (?c + ?N) mod ?N\<rparr>)"
    using next_n_run[OF ne c, of ?N] by (simp only: len)
  have look: "\<And>j. j < ?N \<Longrightarrow> map_of (workers st) (sortedKeys st ! j) = Some (?aw ! j)"
    using map_of_sorted_nth[OF ok] by (simp add: sk getAllWorkers_def pool_size_def)
  have "map (\<lambda>i. map_of (workers st) (sortedKeys st ! ((?c + i) mod ?N))) [0..<?N]
          = map Some (rotate ?c ?aw)"
  proof (rule nth_equalityI)
    show "length (map (\<lambda>i. map_of (workers st) (sortedKeys st ! ((?c + i) mod ?N))) [0..<?N])
            = length (map Some (rotate ?c ?aw))"
      by (simp add: len)
  next
    fix i
    assume "i < length (map (\<lambda>i. map_of (workers st) (sortedKeys st ! ((?c + i) mod ?N))) [0..<?N])"
    then have i: "i < ?N" by simp
    have "(?c + i) mod ?N < ?N" using assms(2) by simp
    then have "map_of (workers st) (sortedKeys st ! ((?c + i) mod ?N)) = Some (?aw ! ((?c + i) mod ?N))"
      by (rule look)
    moreover have "rotate ?c ?aw ! i = ?aw ! ((?c + i) mod ?N)"
      using i by (simp add: nth_rotate len)
    ultimately show "map (\<lambda>i. map_of (workers st) (sortedKeys st ! ((?c + i) mod ?N))) [0..<?N] ! i
                       = map Some (rotate ?c ?aw) ! i"
      using i by (simp add: len)
  qed
  moreover have "st\<lparr>currentIndex := (?c + ?N) mod ?N\<rparr> = st"
    using c by (simp add: len)
  moreover have "sorted (map upload_at ?aw)" by (simp add: getAllWorkers_def sorted_sort_key)
  moreover have "distinct (map key ?aw)"
    using pool_inv_distinct_keys[OF inv] by (simp only: sk)
  moreover have "set (map key ?aw) = fst ` set (workers st)"
    using pool_inv_set_keys[OF inv] by (simp only: sk)
  ultimately show ?thesis using run len by simp
qed

theorem fairness_rotation_witness:
  "reachable pool2 \<and> pool_size pool2 = 2 \<and> sortedKeys pool2 = [''w2'', ''w1'']
   \<and> map (map_option key) (fst (next_n 3 pool2)) = [Some ''w2'', Some ''w1'', Some ''w2'']
   \<and> fst (next_n 2 pool2) = map Some (getAllWorkers pool2)"
proof -
  have n: "pool_size pool2 = 2" by (simp add: pool2_value pool_size_def)
  have c: "currentIndex pool2 = 0" by (simp add: pool2_value)
  have three: "map (map_option key) (fst (next_n 3 pool2)) = [Some ''w2'', Some ''w1'', Some ''w2'']"
    by (simp add: numeral_3_eq_3 pool2_value getNextWorker_def nth_opt_def)
  from fairness_rotation[OF pool2_reachable] n
  have "fst (next_n 2 pool2) = map Some (rotate (currentIndex pool2) (getAllWorkers pool2))"
    by simp
  with c have "fst (next_n 2 pool2) = map Some (getAllWorkers pool2)" by simp
  with pool2_reachable n three show ?thesis by (simp add: pool2_value)
qed

text \<open>
  Counterexample to C4 as stated, which fails once the cursor has moved: after one dispatch the next two
  calls return \<^verbatim>\<open>w1\<close> (100) and then \<^verbatim>\<open>w2\<close> (50).
\<close>

theorem fairness_ascending_counterexample:
  "reachable pool2_next \<and> pool_size pool2_next = 2
   \<and> map (map_option upload_at) (fst (next_n 2 pool2_next)) = [Some 100, Some 50]
   \<and> \<not> sorted (List.map_filter (map_option upload_at) (fst (next_n 2 pool2_next)))"
  using pool2_next_reachable
  by (simp add: numeral_2_eq_2 pool2_next_value getNextWorker_def nth_opt_def pool_size_def
      List.map_filter_simps)

text \<open>
  C5. Cursor bounds: in every state the pool can reach, and so after every reconcile and
  after every \<^verbatim>\<open>getNextWorker\<close> from such a state, the cursor is 0 when the ordered
  sequence is empty and is a valid index of it otherwise.
\<close>

theorem cursor_bounds:
  assumes "reachable st"
  shows "cursor_in_bounds st
         \<and> cursor_in_bounds (snd (syncFromObject dparse clock incoming st))
         \<and> cursor_in_bounds (snd (getNextWorker st))"
proof -
  have "\<And>s. reachable s \<Longrightarrow> cursor_in_bounds s"
    using reachable_inv by (simp add: pool_inv_def)
  with assms show ?thesis by (simp add: reachable.by_sync reachable.by_next)
qed

theorem cursor_bounds_witness:
  "reachable pool2
   \<and> sortedKeys pool2 = [''w2'', ''w1'']
   \<and> currentIndex pool2 = 0
   \<and> cursor_in_bounds pool2
   \<and> currentIndex (snd (getNextWorker pool2)) = 1
   \<and> cursor_in_bounds (snd (getNextWorker pool2))"
proof -
  have r: "reachable pool2"
    by (rule pool2_reachable)
  from cursor_bounds[OF r] r show ?thesis
    by (simp add: pool2_value getNextWorker_fields)
qed



text \<open>
  C7. Timestamp normalization: a (finite) numeric input is kept as it is; a string that
  the date parser accepts becomes the parsed epoch; the pending-server-time placeholder
  \<^verbatim>\<open>{".sv": "timestamp"}\<close> becomes the time of receipt; and every other input (an
  unparseable string, undefined, null, a boolean, any other object, a non-finite number)
  becomes the time of receipt.
\<close>

theorem normalizeUploadAt_cases:
  "normalizeUploadAt dparse now (JNum n) = n
   \<and> normalizeUploadAt dparse now (JStr s) = (case dparse s of Some t \<Rightarrow> t | None \<Rightarrow> now)
   \<and> normalizeUploadAt dparse now (JObj a [(''.sv'', JStr ''timestamp'')]) = now
   \<and> normalizeUploadAt dparse now (JObj a fs) = now
   \<and> normalizeUploadAt dparse now JUndefined = now
   \<and> normalizeUploadAt dparse now JNull = now
   \<and> normalizeUploadAt dparse now (JBool b) = now
   \<and> normalizeUploadAt dparse now JNaN = now
   \<and> normalizeUploadAt dparse now (JInfinity sg) = now"
  by simp

text \<open>
  C8. The health branch serialises every timestamp with \<^verbatim>\<open>toISOString\<close>, which throws
  on a time value outside the range of \<^verbatim>\<open>Date\<close>. A worker that reported a numeric
  \<^verbatim>\<open>upload_at\<close> of 8640000000000001 is stored with it, and the health request then
  raises a \<^verbatim>\<open>RangeError\<close> instead of answering 200. The pool is unchanged by the
  request (\<open>health_frame\<close>), and with every timestamp in range the answer is the 200
  report in ascending order (\<open>health_report_in_range\<close>).
\<close>

theorem health_throws_on_far_timestamp:
  "handle_request fmt uuid health_request
     (snd (syncFromObject dparse clock snapshot_far_future new_pool))
   = (Throws RangeError, snd (syncFromObject dparse clock snapshot_far_future new_pool))
   \<and> workers (snd (syncFromObject dparse clock snapshot_far_future new_pool))
       = [stored ''w1'' ''http://h1'' 8640000000000001]"
proof -
  have v: "snd (syncFromObject dparse clock snapshot_far_future new_pool) =
      \<lparr>workers = [stored ''w1'' ''http://h1'' 8640000000000001],
       sortedKeys = [''w1''], currentIndex = 0, firstSyncLogged = True\<rparr>"
    by (simp add: snapshot_far_future_def entry_def stored_def sync_eval_defs)
  show ?thesis unfolding v
    by (simp add: handle_request_def health_request_def getAllWorkers_def stored_def
        toISOString_def time_clip_def)
qed

text \<open>
  C9. In every reachable state each key of the sorted sequence is a key of the workers
  map; \<^verbatim>\<open>getNextWorker\<close> returns \<^verbatim>\<open>null\<close> exactly when the registry is empty, and
  otherwise returns the record stored under the key at the cursor, so the \<^verbatim>\<open>|| null\<close>
  fallback is never taken on a non-empty registry.
\<close>

theorem next_returns_record:
  assumes "reachable st"
  shows "set (sortedKeys st) \<subseteq> fst ` set (workers st)
         \<and> (if pool_size st = 0 then fst (getNextWorker st) = None
            else \<exists>w. fst (getNextWorker st) = Some w
                     \<and> (sortedKeys st ! currentIndex st, w) \<in> set (workers st))"
proof -
  have inv: "pool_inv st" using assms by (rule reachable_inv)
  have ks: "set (sortedKeys st) = fst ` set (workers st)" using inv by (rule pool_inv_set_keys)
  have len: "length (sortedKeys st) = length (workers st)"
    using pool_inv_sorted[OF inv] by simp
  show ?thesis
  proof (cases "pool_size st = 0")
    case True
    then have "sortedKeys st = []" using len by (simp add: pool_size_def)
    with True ks show ?thesis by (simp add: getNextWorker_def)
  next
    case False
    then have ne: "sortedKeys st \<noteq> []" using len by (auto simp: pool_size_def)
    then have c: "currentIndex st < length (sortedKeys st)" using inv by (simp add: pool_inv_cursor)
    then have "sortedKeys st ! currentIndex st \<in> fst ` set (workers st)"
      using ks nth_mem by blast
    then obtain w where w: "map_of (workers st) (sortedKeys st ! currentIndex st) = Some w"
      by (metis map_of_eq_None_iff not_Some_eq)
    then have "(sortedKeys st ! currentIndex st, w) \<in> set (workers st)" by (rule map_of_SomeD)
    with w ne c False ks show ?thesis
      by (simp add: getNextWorker_def Let_def nth_opt_def)
  qed
qed

theorem next_returns_record_witness:
  "reachable pool2
   \<and> pool_size pool2 = 2
   \<and> (\<exists>w. fst (getNextWorker pool2) = Some w
          \<and> key w = ''w2'')"
proof -
  have r: "reachable pool2"
    by (rule pool2_reachable)
  from next_returns_record[OF r] r show ?thesis
    by (simp add: pool2_value pool_size_def getNextWorker_def nth_opt_def)
qed

text \<open>
  C10. The health branch is taken exactly for the urls \<^verbatim>\<open>/health\<close>, \<^verbatim>\<open>/health/\<close>,
  \<^verbatim>\<open>/nginx-health\<close> and \<^verbatim>\<open>/nginx-health/\<close>, and leaves the pool untouched; every other
  url, \<^verbatim>\<open>/health?x=1\<close> among them, goes through the dispatch step, which on an empty
  registry answers 503 and otherwise forwards to the record under the cursor and advances
  the cursor by one position modulo the length of the sequence.
\<close>

theorem health_match_exact:
  assumes "reachable st"
  shows "(if req_url req = ''/health'' \<or> req_url req = ''/health/''
             \<or> req_url req = ''/nginx-health'' \<or> req_url req = ''/nginx-health/''
          then snd (handle_request fmt uuid req st) = st
          else if pool_size st = 0
          then handle_request fmt uuid req st =
                 (Respond 503 (ErrorBody ''Service Unavailable'' message_503
                                 (request_id_of uuid req)), st)
          else \<exists>w. map_of (workers st) (sortedKeys st ! currentIndex st) = Some w
                   \<and> handle_request fmt uuid req st =
                       (ProxyWeb (url w) (request_id_of uuid req) (key w) (version w),
                        st\<lparr>currentIndex := (currentIndex st + 1) mod length (sortedKeys st)\<rparr>))
         \<and> snd (handle_request fmt uuid health_query_request st) = snd (getNextWorker st)"
proof -
  have q: "snd (handle_request fmt uuid health_query_request st) = snd (getNextWorker st)"
    by (simp add: handle_request_other health_query_request_def)
  show ?thesis
  proof (cases "req_url req = ''/health'' \<or> req_url req = ''/health/''
             \<or> req_url req = ''/nginx-health'' \<or> req_url req = ''/nginx-health/''")
    case True
    then have "snd (handle_request fmt uuid req st) = st"
      by (intro health_frame) auto
    with True q show ?thesis by (simp only: if_True simp_thms)
  next
    case False
    then have h: "handle_request fmt uuid req st =
           (case fst (getNextWorker st) of
              None \<Rightarrow> Respond 503 (ErrorBody ''Service Unavailable'' message_503
                                      (request_id_of uuid req))
            | Some w \<Rightarrow> ProxyWeb (url w) (request_id_of uuid req) (key w) (version w),
            snd (getNextWorker st))"
      by (intro handle_request_other) simp_all
    show ?thesis
    proof (cases "pool_size st = 0")
      case True
      with getNextWorker_empty[OF assms True] h False q show ?thesis by simp
    next
      case nz: False
      from getNextWorker_nonempty[OF assms nz] obtain w where
        w: "map_of (workers st) (sortedKeys st ! currentIndex st) = Some w"
        and g: "getNextWorker st =
                 (Some w, st\<lparr>currentIndex := (currentIndex st + 1) mod length (sortedKeys st)\<rparr>)"
        by blast
      from h g have "handle_request fmt uuid req st =
                       (ProxyWeb (url w) (request_id_of uuid req) (key w) (version w),
                        st\<lparr>currentIndex := (currentIndex st + 1) mod length (sortedKeys st)\<rparr>)"
        by simp
      with w have "\<exists>w. map_of (workers st) (sortedKeys st ! currentIndex st) = Some w
                   \<and> handle_request fmt uuid req st =
                       (ProxyWeb (url w) (request_id_of uuid req) (key w) (version w),
                        st\<lparr>currentIndex := (currentIndex st + 1) mod length (sortedKeys st)\<rparr>)"
        by blast
      with False nz q show ?thesis by (simp only: if_False simp_thms)
    qed
  qed
qed

theorem health_match_exact_witness:
  "reachable pool2
   \<and> handle_request (\<lambda>t. []) ''generated-id'' health_query_request pool2 =
       (ProxyWeb (JStr ''http://h2'') ''generated-id'' ''w2'' (JStr ''unknown''), pool2_next)
   \<and> currentIndex pool2 = 0 \<and> currentIndex pool2_next = 1
   \<and> snd (handle_request (\<lambda>t. []) ''generated-id'' health_request pool2) = pool2"
proof -
  have n: "pool_size pool2 \<noteq> 0" by (simp add: pool2_value pool_size_def)
  from health_match_exact[OF pool2_reachable, of health_request "\<lambda>t. []" "''generated-id''"]
  have h: "snd (handle_request (\<lambda>t. []) ''generated-id'' health_request pool2) = pool2"
    by (simp add: health_request_def)
  from health_match_exact[OF pool2_reachable, of health_query_request "\<lambda>t. []" "''generated-id''"] n
  have "\<exists>w. map_of (workers pool2) (sortedKeys pool2 ! currentIndex pool2) = Some w
           \<and> handle_request (\<lambda>t. []) ''generated-id'' health_query_request pool2 =
               (ProxyWeb (url w) (request_id_of ''generated-id'' health_query_request) (key w)
                  (version w),
                pool2\<lparr>currentIndex := (currentIndex pool2 + 1) mod length (sortedKeys pool2)\<rparr>)"
    by (simp add: health_query_request_def)
  then have q: "handle_request (\<lambda>t. []) ''generated-id'' health_query_request pool2 =
       (ProxyWeb (JStr ''http://h2'') ''generated-id'' ''w2'' (JStr ''unknown''), pool2_next)"
    unfolding pool2_next_value
    by (auto simp: pool2_value request_id_of_def health_query_request_def)
  from q h pool2_reachable show ?thesis by (simp add: pool2_value pool2_next_value)
qed

end
